theory Spec2Isabelle
  imports Main "HOL-Library.AList" "HOL-Library.Multiset"
begin

section \<open>prestomanifesto: the data model\<close>

text \<open>
  The program (\<^verbatim>\<open>main.go\<close>) crawls a container registry whose images live in
  architecture namespaces (\<^verbatim>\<open>domain/arch/image:tag\<close>) and prints the
  \<^verbatim>\<open>docker manifest\<close> commands for every top-level manifest list
  (\<^verbatim>\<open>domain/image:tag\<close>) that does not match its architecture images.

  Go strings are \<^typ>\<open>string\<close>; a \<^verbatim>\<open>digest.Digest\<close> is a Go string type.
  The counters are Go \<^verbatim>\<open>int\<close> (64 bit); a counter changes by one per fetched tag or
  manifest-list entry, so it stays far from the wrap-around and is modelled as \<^typ>\<open>int\<close>.
\<close>

type_synonym digest = string

text \<open>
  A Go \<^verbatim>\<open>error\<close> value. The only thing the program ever asks of one is whether it is a
  \<^verbatim>\<open>*json.SyntaxError\<close> (in \<^verbatim>\<open>getAllRepoTags\<close>); everything else is carried
  by its message.
\<close>

datatype error = SyntaxError string | OtherError string

text \<open>
  The registry client (\<^verbatim>\<open>github.com/genuinetools/reg/registry\<close>) is an external
  collaborator and is taken as a parameter: the field \<^verbatim>\<open>Domain\<close> and the results of
  the calls \<^verbatim>\<open>Catalog(ctx, "")\<close>, \<^verbatim>\<open>Tags(ctx, repo)\<close>,
  \<^verbatim>\<open>registry.ParseImage(s)\<close>, \<^verbatim>\<open>Digest(ctx, image)\<close> and
  \<^verbatim>\<open>ManifestList(ctx, repo, tag)\<close>. Of a manifest list only the \<^verbatim>\<open>Digest\<close>
  of each element of \<^verbatim>\<open>ml.Manifests\<close> is read, so the call yields that list of
  digests. Every repository/tag pair is fetched at most once in a run, so a call is a
  function of its arguments.
\<close>

record 'img registry =
  Domain :: string
  Catalog :: "error + string list"
  Tags :: "string \<Rightarrow> error + string list"
  ParseImage :: "string \<Rightarrow> error + 'img"
  Digest :: "'img \<Rightarrow> error + digest"
  ManifestList :: "string \<Rightarrow> string \<Rightarrow> error + digest list"

text \<open>\<^verbatim>\<open>type updateInfo struct { repoTag string; archs []string }\<close>\<close>

record updateInfo =
  repoTag :: string
  archs :: "string list"

text \<open>
  \<^verbatim>\<open>type containerInfo struct { digs map[digest.Digest]int; archs []string }\<close>
  (its field \<^verbatim>\<open>archs\<close> is \<open>carchs\<close> here, apart from that of \<open>updateInfo\<close>).
  A Go map is an association list with distinct keys, a new key going to the end; Go
  leaves the order of \<^verbatim>\<open>range\<close> over a map open, and the theorems below speak of the
  keys and counts only, never of that order.
\<close>

record containerInfo =
  digs :: "(digest \<times> int) list"
  carchs :: "string list"

type_synonym digests = "(string \<times> containerInfo) list"

section \<open>Strings\<close>

text \<open>
  \<^verbatim>\<open>strings.Split(s, sep)\<close> for a separator of one character (the program splits at
  \<^verbatim>\<open>","\<close> and \<^verbatim>\<open>"/"\<close> only): the pieces between the separators, one more
  than there are separators.
\<close>

fun Split :: "string \<Rightarrow> char \<Rightarrow> string list" where
  "Split [] sep = [[]]"
| "Split (c # cs) sep =
     (if c = sep then [] # Split cs sep
      else (case Split cs sep of [] \<Rightarrow> [[c]] | x # xs \<Rightarrow> (c # x) # xs))"

text \<open>\<^verbatim>\<open>strings.Join(elems, sep)\<close>\<close>

fun Join :: "string list \<Rightarrow> string \<Rightarrow> string" where
  "Join [] sep = []"
| "Join [x] sep = x"
| "Join (x # y # ys) sep = x @ sep @ Join (y # ys) sep"

section \<open>The architecture classifier\<close>

text \<open>The inner loop of \<^verbatim>\<open>processArch\<close>, over \<^verbatim>\<open>validArch\<close>.\<close>

fun processValid :: "string \<Rightarrow> string list \<Rightarrow> string \<times> bool" where
  "processValid prefix [] = (prefix, False)"
| "processValid prefix (valArch # rest) =
     (if prefix = valArch then (prefix, True) else processValid prefix rest)"

fun processArch :: "string \<Rightarrow> string list \<Rightarrow> string list \<Rightarrow> string \<times> bool" where
  "processArch prefix [] validArch = ('''', True)"
| "processArch prefix (arch # rest) validArch =
     (if prefix = arch then processValid prefix validArch
      else processArch prefix rest validArch)"

section \<open>The update plan\<close>

definition createCmd :: "string list" where
  "createCmd = [''docker'', ''manifest'', ''create'', ''--insecure'', ''--amend'']"

definition pushCmd :: "string list" where
  "pushCmd = [''docker'', ''manifest'', ''push'', ''--insecure'']"

text \<open>
  The inner loop of \<^verbatim>\<open>pushUpdates\<close>:
  \<^verbatim>\<open>cCmd = append(cCmd, fmt.Sprintf("%s/%s/%s", domain, a, u.repoTag))\<close>.
\<close>

fun appendArchs :: "string \<Rightarrow> string \<Rightarrow> string list \<Rightarrow> string list \<Rightarrow> string list" where
  "appendArchs domain rt [] cCmd = cCmd"
| "appendArchs domain rt (a # as) cCmd =
     appendArchs domain rt as (cCmd @ [domain @ ''/'' @ a @ ''/'' @ rt])"

text \<open>
  The outer loop; the state is standard output, one element per \<^verbatim>\<open>fmt.Println\<close>.
  Both command prefixes are slice literals (length = capacity), so \<^verbatim>\<open>append\<close>
  copies and the two never share storage.
\<close>

fun printUpdates :: "updateInfo list \<Rightarrow> string \<Rightarrow> string list \<Rightarrow> string list" where
  "printUpdates [] domain out = out"
| "printUpdates (u # us) domain out =
     (let topLevel = domain @ ''/'' @ repoTag u;
          cCmd = appendArchs domain (repoTag u) (archs u) (createCmd @ [topLevel]);
          out1 = out @ [Join cCmd '' ''];
          pCmd = pushCmd @ [topLevel];
          out2 = out1 @ [Join pCmd '' '']
      in printUpdates us domain out2)"

text \<open>\<^verbatim>\<open>pushUpdates\<close> returns what it printed and its error, which is always nil.\<close>

definition pushUpdates :: "updateInfo list \<Rightarrow> string \<Rightarrow> string list \<times> error option" where
  "pushUpdates us domain = (printUpdates us domain [], None)"

text \<open>The two lines of the plan for one update record, as text.\<close>

definition createLine :: "string \<Rightarrow> updateInfo \<Rightarrow> string" where
  "createLine domain u =
     ''docker manifest create --insecure --amend '' @ domain @ ''/'' @ repoTag u @
     concat (map (\<lambda>a. '' '' @ domain @ ''/'' @ a @ ''/'' @ repoTag u) (archs u))"

definition pushLine :: "string \<Rightarrow> updateInfo \<Rightarrow> string" where
  "pushLine domain u = ''docker manifest push --insecure '' @ domain @ ''/'' @ repoTag u"

section \<open>The reconciliation engine\<close>

text \<open>
  A read \<^verbatim>\<open>digs[dig]\<close> of a Go map: zero for a key that is not there.
\<close>

definition lookupDigs :: "(digest \<times> int) list \<Rightarrow> digest \<Rightarrow> int" where
  "lookupDigs m dig = (case map_of m dig of None \<Rightarrow> 0 | Some n \<Rightarrow> n)"

text \<open>\<^verbatim>\<open>containerInfo{digs: make(map[digest.Digest]int)}\<close>\<close>

definition newInfo :: containerInfo where
  "newInfo = \<lparr>digs = [], carchs = []\<rparr>"

text \<open>
  A goroutine of \<^verbatim>\<open>getUpdates\<close> first asks the registry, outside the lock, and
  then changes \<^verbatim>\<open>digests\<close> between \<^verbatim>\<open>m.Lock()\<close> and \<^verbatim>\<open>m.Unlock()\<close>.
  An \<open>obs\<close> is what it takes into the critical section: for an architecture image
  the \<^verbatim>\<open>repoTag\<close>, the architecture and the digest, for a top-level tag the
  \<^verbatim>\<open>repoTag\<close> and the digests of the manifest list.
\<close>

datatype obs = ArchImage string string digest | TopLevel string "digest list"

text \<open>
  The part of the goroutine before the lock; \<open>repo\<close>, \<open>rSplit\<close>, \<open>arch\<close> and
  \<open>isArch\<close> are the variables it captures.
\<close>

definition fetch ::
  "'img registry \<Rightarrow> string \<Rightarrow> string list \<Rightarrow> string \<Rightarrow> bool \<Rightarrow> string \<Rightarrow> error + obs" where
  "fetch reg repo rSplit arch isArch tag =
     (if isArch then
        (case ParseImage reg (Domain reg @ ''/'' @ repo @ '':'' @ tag) of
           Inl err \<Rightarrow> Inl err
         | Inr img \<Rightarrow>
             (case Digest reg img of
                Inl err \<Rightarrow> Inl err
              | Inr dig \<Rightarrow> Inr (ArchImage (Join (tl rSplit) ''/'' @ '':'' @ tag) arch dig)))
      else
        (case ManifestList reg repo tag of
           Inl err \<Rightarrow> Inl err
         | Inr ml \<Rightarrow> Inr (TopLevel (repo @ '':'' @ tag) ml)))"

text \<open>
  The loop \<^verbatim>\<open>for _, m := range ml.Manifests { digests[repoTag].digs[dig]-- }\<close>.
  The entry is there when the loop runs (\<open>commit\<close> has just ensured it); on a missing
  entry Go would write to a nil map and panic, which the first case stands for.
\<close>

fun decManifests :: "string \<Rightarrow> digest list \<Rightarrow> digests \<Rightarrow> digests" where
  "decManifests rt [] ds = ds"
| "decManifests rt (dig # rest) ds =
     decManifests rt rest
       (case map_of ds rt of
          None \<Rightarrow> ds
        | Some e \<Rightarrow>
            AList.update rt (e\<lparr>digs := AList.update dig (lookupDigs (digs e) dig - 1) (digs e)\<rparr>) ds)"

text \<open>
  The two critical sections. Every stored entry was made with a non-nil \<^verbatim>\<open>digs\<close>, so
  \<^verbatim>\<open>digests[repoTag].digs == nil\<close> holds exactly when the key is missing.
\<close>

fun commit :: "obs \<Rightarrow> digests \<Rightarrow> digests" where
  "commit (ArchImage rt arch dig) ds =
     (let ee = (case map_of ds rt of None \<Rightarrow> newInfo | Some e \<Rightarrow> e);
          ee1 = ee\<lparr>carchs := carchs ee @ [arch]\<rparr>;
          ee2 = ee1\<lparr>digs := AList.update dig (lookupDigs (digs ee1) dig + 1) (digs ee1)\<rparr>
      in AList.update rt ee2 ds)"
| "commit (TopLevel rt ml) ds =
     (let ds1 = (case map_of ds rt of None \<Rightarrow> AList.update rt newInfo ds | Some e \<Rightarrow> ds)
      in decManifests rt ml ds1)"

text \<open>
  One repository: \<^verbatim>\<open>g.Go\<close> for every tag, then \<^verbatim>\<open>g.Wait()\<close>. The group has no
  context, so every goroutine runs to its end whatever the others return, and the group
  keeps the first error. The critical sections exclude each other, so the goroutines
  act as if run one after the other in the order they take the lock; that order is the
  order of \<open>tags\<close> here, and the theorems hold for every list of tags.
  The state is \<^verbatim>\<open>digests\<close> and the error of the group.
\<close>

fun goTags ::
  "'img registry \<Rightarrow> string \<Rightarrow> string list \<Rightarrow> string \<Rightarrow> bool \<Rightarrow> string list \<Rightarrow>
     digests \<times> error option \<Rightarrow> digests \<times> error option" where
  "goTags reg repo rSplit arch isArch [] st = st"
| "goTags reg repo rSplit arch isArch (tag # tags) (ds, gerr) =
     (case fetch reg repo rSplit arch isArch tag of
        Inl err \<Rightarrow>
          goTags reg repo rSplit arch isArch tags
            (ds, (case gerr of None \<Rightarrow> Some err | Some e \<Rightarrow> Some e))
      | Inr ob \<Rightarrow> goTags reg repo rSplit arch isArch tags (commit ob ds, gerr))"

text \<open>
  The first loop of \<^verbatim>\<open>getUpdates\<close>, \<^verbatim>\<open>for repo, tags := range repoTags\<close>; the
  map \<^verbatim>\<open>repoTags\<close> comes as the list of its entries in the order of the iteration.
\<close>

fun crawl ::
  "'img registry \<Rightarrow> (string \<times> string list) list \<Rightarrow> string list \<Rightarrow> string list \<Rightarrow>
     digests \<Rightarrow> error + digests" where
  "crawl reg [] allArchs validArch ds = Inr ds"
| "crawl reg ((repo, tags) # rest) allArchs validArch ds =
     (let rSplit = Split repo CHR ''/'' in
      case processArch (hd rSplit) allArchs validArch of
        (arch, ok) \<Rightarrow>
          if \<not> ok then crawl reg rest allArchs validArch ds
          else
            (case goTags reg repo rSplit arch (arch \<noteq> '''') tags (ds, None) of
               (ds1, Some err) \<Rightarrow> Inl err
             | (ds1, None) \<Rightarrow> crawl reg rest allArchs validArch ds1))"

text \<open>The inner loop of the second loop: is some count not zero?\<close>

fun needsUpdate :: "(digest \<times> int) list \<Rightarrow> bool" where
  "needsUpdate [] = False"
| "needsUpdate ((dig, n) # rest) = (if n \<noteq> 0 then True else needsUpdate rest)"

text \<open>The second loop, \<^verbatim>\<open>for rt, info := range digests\<close>.\<close>

fun collect :: "digests \<Rightarrow> updateInfo list \<Rightarrow> updateInfo list" where
  "collect [] updates = updates"
| "collect ((rt, info) # rest) updates =
     (if needsUpdate (digs info)
      then collect rest (updates @ [\<lparr>repoTag = rt, archs = carchs info\<rparr>])
      else collect rest updates)"

text \<open>
  \<^verbatim>\<open>getUpdates\<close> returns a slice and an error; the nil slice is the empty list.
\<close>

definition getUpdates ::
  "'img registry \<Rightarrow> (string \<times> string list) list \<Rightarrow> string list \<Rightarrow> string list \<Rightarrow>
     updateInfo list \<times> error option" where
  "getUpdates reg repoTags allArchs validArch =
     (case crawl reg repoTags allArchs validArch [] of
        Inl err \<Rightarrow> ([], Some err)
      | Inr ds \<Rightarrow> (collect ds [], None))"

text \<open>
  The expression \<^verbatim>\<open>digests[rt].digs[d]\<close> as Go reads it: zero when either key is
  missing.
\<close>

definition balance :: "digests \<Rightarrow> string \<Rightarrow> digest \<Rightarrow> int" where
  "balance ds rt d = (case map_of ds rt of None \<Rightarrow> 0 | Some e \<Rightarrow> lookupDigs (digs e) d)"

text \<open>The sum of the absolute values of the counts of one \<^verbatim>\<open>repoTag\<close>.\<close>

definition absTotal :: "digests \<Rightarrow> string \<Rightarrow> int" where
  "absTotal ds rt =
     (case map_of ds rt of None \<Rightarrow> 0 | Some e \<Rightarrow> sum_list (map (\<lambda>p. \<bar>snd p\<bar>) (digs e)))"

section \<open>The inventory\<close>

text \<open>\<^verbatim>\<open>err.Error()\<close>, as \<^verbatim>\<open>%s\<close> prints an error.\<close>

fun errorString :: "error \<Rightarrow> string" where
  "errorString (SyntaxError msg) = msg"
| "errorString (OtherError msg) = msg"

text \<open>
  The tasks of \<^verbatim>\<open>getAllRepoTags\<close>, one per repository, in the order they end. The
  state is the map \<^verbatim>\<open>repoTags\<close>, the error of the group and what the failing tasks
  wrote to standard output with \<^verbatim>\<open>fmt.Printf\<close>.
\<close>

fun goRepos ::
  "'img registry \<Rightarrow> string list \<Rightarrow>
     (string \<times> string list) list \<times> error option \<times> string list \<Rightarrow>
     (string \<times> string list) list \<times> error option \<times> string list" where
  "goRepos reg [] st = st"
| "goRepos reg (repo # repos) (repoTags, gerr, out) =
     (case Tags reg repo of
        Inl err \<Rightarrow>
          goRepos reg repos
            (repoTags, (case gerr of None \<Rightarrow> Some err | Some e \<Rightarrow> Some e),
             out @ [''get tags of ['' @ repo @ ''] error: '' @ errorString err])
      | Inr tags \<Rightarrow> goRepos reg repos (AList.update repo tags repoTags, gerr, out))"

text \<open>
  \<^verbatim>\<open>getAllRepoTags\<close> returns \<^verbatim>\<open>repoTags, g.Wait()\<close>: the map as the tasks left
  it, and the error of the group. The third component is its standard output.
\<close>

definition getAllRepoTags ::
  "'img registry \<Rightarrow> (string \<times> string list) list \<times> error option \<times> string list" where
  "getAllRepoTags reg =
     (case Catalog reg of
        Inl err \<Rightarrow>
          (case err of
             SyntaxError msg \<Rightarrow>
               ([], Some (OtherError (''domain '' @ Domain reg @ '' is not a valid registry'')), [])
           | OtherError msg \<Rightarrow> ([], Some err, []))
      | Inr repos \<Rightarrow> goRepos reg repos ([], None, []))"

section \<open>The program\<close>

text \<open>
  \<^verbatim>\<open>run\<close> returns standard output (what the failing inventory tasks wrote, then the
  lines of the plan) and its error. The log goes to standard error and is left out.
  (The parameter \<^verbatim>\<open>archs\<close> is \<open>archs'\<close>, apart from the field of \<open>updateInfo\<close>.)
\<close>

definition run :: "'img registry \<Rightarrow> string list \<Rightarrow> string list \<Rightarrow> string list \<times> error option" where
  "run reg allArchs archs' =
     (case getAllRepoTags reg of
        (repoTags, Some err, out) \<Rightarrow> (out, Some err)
      | (repoTags, None, out) \<Rightarrow>
          (case getUpdates reg repoTags allArchs archs' of
             (updates, Some err) \<Rightarrow> (out, Some err)
           | (updates, None) \<Rightarrow>
               if length updates = 0 then (out, None)
               else (case pushUpdates updates (Domain reg) of
                       (lines, Some err) \<Rightarrow> (out @ lines, Some err)
                     | (lines, None) \<Rightarrow> (out @ lines, None))))"

text \<open>
  How the process ends: \<^verbatim>\<open>flag.Usage(); os.Exit(1)\<close>, or \<^verbatim>\<open>log.Fatal\<close> with its
  message (exit status 1) after some standard output, or the return from
  \<^verbatim>\<open>main\<close> (exit status 0) with the standard output.
\<close>

datatype outcome = Usage | Fatal string "string list" | Success "string list"

fun exitStatus :: "outcome \<Rightarrow> nat" where
  "exitStatus Usage = 1"
| "exitStatus (Fatal msg out) = 1"
| "exitStatus (Success out) = 0"

text \<open>
  \<^verbatim>\<open>main\<close>. Its inputs are what the \<^verbatim>\<open>flag\<close> package hands over: the positional
  arguments and the values of \<^verbatim>\<open>-all\<close> and \<^verbatim>\<open>-a\<close> (the default when the flag
  is not given). \<^verbatim>\<open>getRegistry\<close> resolves the credentials and opens the registry: it is
  the first step that uses the network, and is a parameter.
\<close>

definition main ::
  "(string \<Rightarrow> error + 'img registry) \<Rightarrow> string list \<Rightarrow> string \<Rightarrow> string \<Rightarrow> outcome" where
  "main getRegistry args allArchs archs' =
     (if length args \<noteq> 1 then Usage
      else
        let allArchsSplit = Split allArchs CHR '','';
            archsSplit = Split archs' CHR '',''
        in
          if length allArchsSplit = 0
          then Fatal ''list of '-all' architectures not allowed to be empty'' []
          else if length archsSplit = 0
          then Fatal ''list of '-a' architectures not allowed to be empty'' []
          else
            let domain = args ! 0 in
            (case getRegistry domain of
               Inl err \<Rightarrow> Fatal (errorString err) []
             | Inr reg \<Rightarrow>
                 (case run reg allArchsSplit archsSplit of
                    (out, Some err) \<Rightarrow> Fatal (errorString err) out
                  | (out, None) \<Rightarrow> Success out)))"

section \<open>What the specification counts\<close>

text \<open>
  The digests that the selected architecture images of the RepoTag \<open>rt\<close> produce, one
  per repository/tag fetch that yields a digest: the repository's first segment is a
  known architecture that is processed, and the rest of its path with the tag is \<open>rt\<close>.
\<close>

definition archDigestAt ::
  "'img registry \<Rightarrow> string list \<Rightarrow> string list \<Rightarrow> string \<Rightarrow> string \<Rightarrow> string \<Rightarrow> digest list" where
  "archDigestAt reg allArchs validArch rt repo tag =
     (let segs = Split repo CHR ''/'' in
      if hd segs \<in> set allArchs \<and> hd segs \<in> set validArch \<and> hd segs \<noteq> '''' \<and>
         Join (tl segs) ''/'' @ '':'' @ tag = rt
      then (case ParseImage reg (Domain reg @ ''/'' @ repo @ '':'' @ tag) of
              Inl err \<Rightarrow> []
            | Inr img \<Rightarrow> (case Digest reg img of Inl err \<Rightarrow> [] | Inr dig \<Rightarrow> [dig]))
      else [])"

definition archImageDigests ::
  "'img registry \<Rightarrow> (string \<times> string list) list \<Rightarrow> string list \<Rightarrow> string list \<Rightarrow> string \<Rightarrow>
     digest list" where
  "archImageDigests reg repoTags allArchs validArch rt =
     concat (map (\<lambda>(repo, tags). concat (map (archDigestAt reg allArchs validArch rt repo) tags))
       repoTags)"

text \<open>
  The digests that the top-level manifest lists of the RepoTag \<open>rt\<close> declare, one per
  entry of a manifest list: the repository's first segment is no known architecture (or
  is the empty architecture, when that is processed), and repository and tag make \<open>rt\<close>.
\<close>

definition declaredAt ::
  "'img registry \<Rightarrow> string list \<Rightarrow> string list \<Rightarrow> string \<Rightarrow> string \<Rightarrow> string \<Rightarrow> digest list" where
  "declaredAt reg allArchs validArch rt repo tag =
     (let segs = Split repo CHR ''/'' in
      if (hd segs \<notin> set allArchs \<or> (hd segs = '''' \<and> hd segs \<in> set validArch)) \<and>
         repo @ '':'' @ tag = rt
      then (case ManifestList reg repo tag of Inl err \<Rightarrow> [] | Inr ml \<Rightarrow> ml)
      else [])"

definition declaredDigests ::
  "'img registry \<Rightarrow> (string \<times> string list) list \<Rightarrow> string list \<Rightarrow> string list \<Rightarrow> string \<Rightarrow>
     digest list" where
  "declaredDigests reg repoTags allArchs validArch rt =
     concat (map (\<lambda>(repo, tags). concat (map (declaredAt reg allArchs validArch rt repo) tags))
       repoTags)"

text \<open>
  The observations of a whole run in their order: what the fetches of the repositories
  that are not skipped yield.
\<close>

definition fetched :: "(error + obs) list \<Rightarrow> obs list" where
  "fetched rs = concat (map (\<lambda>r. case r of Inl err \<Rightarrow> [] | Inr ob \<Rightarrow> [ob]) rs)"

definition repoObservations ::
  "'img registry \<Rightarrow> string list \<Rightarrow> string list \<Rightarrow> string \<times> string list \<Rightarrow> obs list" where
  "repoObservations reg allArchs validArch rts =
     (case rts of (repo, tags) \<Rightarrow>
        (let rSplit = Split repo CHR ''/'' in
         case processArch (hd rSplit) allArchs validArch of
           (arch, ok) \<Rightarrow>
             if ok then fetched (map (fetch reg repo rSplit arch (arch \<noteq> '''')) tags) else []))"

definition observations ::
  "'img registry \<Rightarrow> (string \<times> string list) list \<Rightarrow> string list \<Rightarrow> string list \<Rightarrow> obs list" where
  "observations reg repoTags allArchs validArch =
     concat (map (repoObservations reg allArchs validArch) repoTags)"

text \<open>
  The digests one observation adds to the count for \<open>rt\<close>, and those it takes from it.
\<close>

fun produced :: "obs \<Rightarrow> string \<Rightarrow> digest list" where
  "produced (ArchImage rt' arch dig) rt = (if rt' = rt then [dig] else [])"
| "produced (TopLevel rt' ml) rt = []"

fun declared :: "obs \<Rightarrow> string \<Rightarrow> digest list" where
  "declared (ArchImage rt' arch dig) rt = []"
| "declared (TopLevel rt' ml) rt = (if rt' = rt then ml else [])"

text \<open>The architectures an observation contributes to \<open>rt\<close>.\<close>

fun contributed :: "obs \<Rightarrow> string \<Rightarrow> string list" where
  "contributed (ArchImage rt' arch dig) rt = (if rt' = rt then [arch] else [])"
| "contributed (TopLevel rt' ml) rt = []"

section \<open>Example registries\<close>

text \<open>
  The registry of the specification's scenario: \<^verbatim>\<open>rck:latest\<close> declares
  \<^verbatim>\<open>sha256:AAA\<close>, \<^verbatim>\<open>amd64/rck:latest\<close> is \<^verbatim>\<open>sha256:AAA\<close> and
  \<^verbatim>\<open>s390x/rck:latest\<close> is \<^verbatim>\<open>sha256:BBB\<close>; and a top-level \<^verbatim>\<open>solo:latest\<close>
  with no architecture image. Images are their references.
\<close>

definition exampleRegistry :: "string registry" where
  "exampleRegistry =
     \<lparr>Domain = ''registry.io'',
      Catalog = Inr [''rck'', ''amd64/rck'', ''s390x/rck'', ''solo''],
      Tags = (\<lambda>repo. Inr [''latest'']),
      ParseImage = (\<lambda>s. Inr s),
      Digest = (\<lambda>img.
        if img = ''registry.io/amd64/rck:latest'' then Inr ''sha256:AAA''
        else if img = ''registry.io/s390x/rck:latest'' then Inr ''sha256:BBB''
        else Inl (OtherError ''not found'')),
      ManifestList = (\<lambda>repo tag.
        if repo = ''rck'' then Inr [''sha256:AAA'']
        else if repo = ''solo'' then Inr [''sha256:CCC'']
        else Inl (OtherError ''not found''))\<rparr>"

text \<open>The same registry when listing the tags of \<^verbatim>\<open>solo\<close> fails.\<close>

definition brokenRegistry :: "string registry" where
  "brokenRegistry =
     exampleRegistry\<lparr>Tags := (\<lambda>repo.
        if repo = ''solo'' then Inl (OtherError ''timeout'') else Inr [''latest''])\<rparr>"

definition exampleRepoTags :: "(string \<times> string list) list" where
  "exampleRepoTags =
     [(''rck'', [''latest'']), (''amd64/rck'', [''latest'']), (''s390x/rck'', [''latest'']),
      (''solo'', [''latest''])]"

text \<open>The default values of \<^verbatim>\<open>-all\<close> and \<^verbatim>\<open>-a\<close>, split.\<close>

definition exampleAllArchs :: "string list" where
  "exampleAllArchs = [''amd64'', ''s390x'', ''ppc64le'', ''arm64'']"

definition exampleArchs :: "string list" where
  "exampleArchs = [''amd64'', ''s390x'']"

text \<open>The map \<^verbatim>\<open>digests\<close> after the crawl of the example registry.\<close>

definition exampleDigests :: digests where
  "exampleDigests =
     [(''rck:latest'',
       \<lparr>digs = [(''sha256:AAA'', 0), (''sha256:BBB'', 1)], carchs = [''amd64'', ''s390x'']\<rparr>),
      (''solo:latest'', \<lparr>digs = [(''sha256:CCC'', - 1)], carchs = []\<rparr>)]"

section \<open>An invariant of the map\<close>

text \<open>
  What being Go maps means for the association lists: no key twice, in
  \<^verbatim>\<open>digests\<close> and in the \<^verbatim>\<open>digs\<close> of every entry.
\<close>

definition wellFormed :: "digests \<Rightarrow> bool" where
  "wellFormed ds =
     (distinct (map fst ds) \<and> list_all (\<lambda>p. distinct (map fst (digs (snd p)))) ds)"

text \<open>
  A run that leaves \<^verbatim>\<open>s390x\<close> out: \<^verbatim>\<open>rck:latest\<close> declares just the digest
  of \<^verbatim>\<open>amd64/rck:latest\<close>.
\<close>

definition matchedRepoTags :: "(string \<times> string list) list" where
  "matchedRepoTags = [(''rck'', [''latest'']), (''amd64/rck'', [''latest''])]"

definition matchedDigests :: digests where
  "matchedDigests = [(''rck:latest'', \<lparr>digs = [(''sha256:AAA'', 0)], carchs = [''amd64'']\<rparr>)]"

text \<open>The \<^verbatim>\<open>digs\<close> of a RepoTag, empty when the key is missing.\<close>

definition digsOf :: "digests \<Rightarrow> string \<Rightarrow> (digest \<times> int) list" where
  "digsOf ds rt = (case map_of ds rt of None \<Rightarrow> [] | Some e \<Rightarrow> digs e)"

text \<open>Three observations of \<^verbatim>\<open>rck:latest\<close>, in two orders.\<close>

definition exampleObs1 :: "obs list" where
  "exampleObs1 =
     [ArchImage ''rck:latest'' ''amd64'' ''sha256:AAA'',
      TopLevel ''rck:latest'' [''sha256:AAA''],
      ArchImage ''rck:latest'' ''s390x'' ''sha256:BBB'']"

definition exampleObs2 :: "obs list" where
  "exampleObs2 =
     [TopLevel ''rck:latest'' [''sha256:AAA''],
      ArchImage ''rck:latest'' ''s390x'' ''sha256:BBB'',
      ArchImage ''rck:latest'' ''amd64'' ''sha256:AAA'']"

text \<open>
  Some fetch of the crawl fails with \<open>e\<close>: a tag of a repository that is not skipped,
  whose goroutine returns \<open>e\<close> before it reaches the lock.
\<close>

definition fetchFails ::
  "'img registry \<Rightarrow> (string \<times> string list) list \<Rightarrow> string list \<Rightarrow> string list \<Rightarrow> error \<Rightarrow> bool" where
  "fetchFails reg repoTags allArchs validArch e =
     (\<exists>rts \<in> set repoTags. \<exists>tag \<in> set (snd rts).
        snd (processArch (hd (Split (fst rts) CHR ''/'')) allArchs validArch) \<and>
        fetch reg (fst rts) (Split (fst rts) CHR ''/'')
          (fst (processArch (hd (Split (fst rts) CHR ''/'')) allArchs validArch))
          (fst (processArch (hd (Split (fst rts) CHR ''/'')) allArchs validArch) \<noteq> '''') tag = Inl e)"

text \<open>The example with an \<^verbatim>\<open>arm64\<close> image whose digest the registry does not have.\<close>

definition failingRepoTags :: "(string \<times> string list) list" where
  "failingRepoTags = exampleRepoTags @ [(''arm64/rck'', [''latest''])]"

text \<open>The \<^verbatim>\<open>archs\<close> of a RepoTag, empty when the key is missing.\<close>

definition carchsOf :: "digests \<Rightarrow> string \<Rightarrow> string list" where
  "carchsOf ds rt = (case map_of ds rt of None \<Rightarrow> [] | Some e \<Rightarrow> carchs e)"

section \<open>Properties of the classifier\<close>

lemma processValid_eq:
  "processValid prefix validArch = (prefix, prefix \<in> set validArch)"
  by (induction validArch) auto

lemma processArch_eq:
  "processArch prefix allArchs validArch =
     (if prefix \<in> set allArchs then (prefix, prefix \<in> set validArch) else ('''', True))"
  by (induction allArchs) (auto simp: processValid_eq)

text \<open>
  C4. The classifier returns \<open>('''', True)\<close> for a prefix that is not a known
  architecture, \<open>(prefix, False)\<close> for a known architecture that is not processed,
  \<open>(prefix, True)\<close> for a known architecture that is processed; and the three
  examples of the specification evaluate as it says.
\<close>

theorem processArch_classifies:
  "(prefix \<notin> set allArchs \<longrightarrow> processArch prefix allArchs validArch = ('''', True)) \<and>
   (prefix \<in> set allArchs \<and> prefix \<notin> set validArch \<longrightarrow>
      processArch prefix allArchs validArch = (prefix, False)) \<and>
   (prefix \<in> set allArchs \<and> prefix \<in> set validArch \<longrightarrow>
      processArch prefix allArchs validArch = (prefix, True)) \<and>
   processArch ''arm64'' [''amd64'', ''arm64''] [''amd64''] = (''arm64'', False) \<and>
   processArch ''myimage'' [''amd64'', ''arm64''] [''amd64''] = ('''', True) \<and>
   processArch ''amd64'' [''amd64'', ''arm64''] [''amd64'', ''arm64''] = (''amd64'', True)"
  by (simp add: processArch_eq)

theorem processArch_classifies_witness:
  "''s390x'' \<notin> set [''amd64'', ''arm64''] \<and>
   processArch ''s390x'' [''amd64'', ''arm64''] [''amd64''] = ('''', True) \<and>
   ''arm64'' \<in> set [''amd64'', ''arm64''] \<and> ''arm64'' \<notin> set [''amd64''] \<and>
   processArch ''arm64'' [''amd64'', ''arm64''] [''amd64''] = (''arm64'', False) \<and>
   ''amd64'' \<in> set [''amd64'', ''arm64''] \<and> ''amd64'' \<in> set [''amd64''] \<and>
   processArch ''amd64'' [''amd64'', ''arm64''] [''amd64''] = (''amd64'', True)"
  using processArch_classifies [of "''s390x''" "[''amd64'', ''arm64'']" "[''amd64'']"]
        processArch_classifies [of "''arm64''" "[''amd64'', ''arm64'']" "[''amd64'']"]
        processArch_classifies [of "''amd64''" "[''amd64'', ''arm64'']" "[''amd64'']"]
  by simp

section \<open>Properties of the update plan\<close>

lemma appendArchs_eq:
  "appendArchs domain rt as cCmd = cCmd @ map (\<lambda>a. domain @ ''/'' @ a @ ''/'' @ rt) as"
  by (induction as arbitrary: cCmd) auto

lemma Join_Cons: "Join (x # xs) sep = x @ concat (map (\<lambda>y. sep @ y) xs)"
  by (induction xs arbitrary: x) auto

lemma create_Join:
  "Join (appendArchs domain (repoTag u) (archs u) (createCmd @ [domain @ ''/'' @ repoTag u])) '' ''
     = createLine domain u"
  by (simp add: appendArchs_eq createCmd_def Join_Cons createLine_def comp_def)

lemma push_Join: "Join (pushCmd @ [domain @ ''/'' @ repoTag u]) '' '' = pushLine domain u"
  by (simp add: pushCmd_def pushLine_def)

lemma printUpdates_eq:
  "printUpdates us domain out =
     out @ concat (map (\<lambda>u. [createLine domain u, pushLine domain u]) us)"
proof (induction us arbitrary: out)
  case Nil
  show ?case by simp
next
  case (Cons u us)
  show ?case
    by (simp only: printUpdates.simps Let_def create_Join push_Join Cons.IH) simp
qed

text \<open>
  C5. For every list of update records and every domain the emitter prints, record by
  record and in their order, two lines: the create/amend command with the top-level
  image path followed by one architecture-qualified path per entry of the record's
  architectures (in order, duplicates kept), then the push command with the top-level
  path only. It returns no error, and its output is this function of its two inputs.
\<close>

theorem pushUpdates_plan:
  "pushUpdates us domain =
     (concat (map (\<lambda>u.
        [''docker manifest create --insecure --amend '' @ domain @ ''/'' @ repoTag u @
           concat (map (\<lambda>a. '' '' @ domain @ ''/'' @ a @ ''/'' @ repoTag u) (archs u)),
         ''docker manifest push --insecure '' @ domain @ ''/'' @ repoTag u]) us), None) \<and>
   length (fst (pushUpdates us domain)) = 2 * length us"
proof -
  have "length (concat (map (\<lambda>u. [createLine domain u, pushLine domain u]) us)) = 2 * length us"
    by (induction us) auto
  then show ?thesis
    by (simp add: pushUpdates_def printUpdates_eq createLine_def pushLine_def)
qed

section \<open>The counters\<close>

lemma Split_not_Nil: "Split s sep \<noteq> []"
  by (induction s) (auto split: list.splits)

lemma lookupDigs_update:
  "lookupDigs (AList.update k v m) k' = (if k' = k then v else lookupDigs m k')"
  by (simp add: lookupDigs_def update_conv')

lemma balance_update:
  "balance (AList.update rt e ds) rt' d =
     (if rt' = rt then lookupDigs (digs e) d else balance ds rt' d)"
  by (simp add: balance_def update_conv')

lemma balance_decManifests:
  "map_of ds rt \<noteq> None \<Longrightarrow>
   balance (decManifests rt ml ds) rt' d =
     balance ds rt' d - (if rt' = rt then int (count_list ml d) else 0)"
proof (induction ml arbitrary: ds)
  case Nil
  show ?case by simp
next
  case (Cons dig rest)
  from Cons.prems obtain e where e: "map_of ds rt = Some e" by auto
  let ?e = "e\<lparr>digs := AList.update dig (lookupDigs (digs e) dig - 1) (digs e)\<rparr>"
  let ?ds = "AList.update rt ?e ds"
  have step: "decManifests rt (dig # rest) ds = decManifests rt rest ?ds"
    using e by simp
  have ne: "map_of ?ds rt \<noteq> None" by (simp add: update_conv')
  have b: "balance ?ds rt' d = balance ds rt' d - (if rt' = rt \<and> dig = d then 1 else 0)"
    using e by (simp add: balance_update lookupDigs_update) (simp add: balance_def)
  show ?case
    unfolding step Cons.IH [OF ne] b by simp
qed

lemma balance_absent: "map_of ds rt = None \<Longrightarrow> balance ds rt d = 0"
  by (simp add: balance_def)

lemma balance_commit_arch:
  "balance (commit (ArchImage rt' arch dig) ds) rt d =
     balance ds rt d + (if rt' = rt \<and> dig = d then 1 else 0)"
proof (cases "map_of ds rt'")
  case None
  then show ?thesis
    by (simp add: Let_def balance_update lookupDigs_update newInfo_def balance_absent)
       (simp add: lookupDigs_def)
next
  case (Some e)
  then show ?thesis
    by (simp add: Let_def balance_update lookupDigs_update) (simp add: balance_def)
qed

lemma balance_commit_top:
  "balance (commit (TopLevel rt' ml) ds) rt d =
     balance ds rt d - (if rt' = rt then int (count_list ml d) else 0)"
proof (cases "map_of ds rt'")
  case None
  have ne: "map_of (AList.update rt' newInfo ds) rt' \<noteq> None" by (simp add: update_conv')
  have "balance (AList.update rt' newInfo ds) rt d = balance ds rt d"
    using None by (simp add: balance_update newInfo_def balance_absent) (simp add: lookupDigs_def)
  with None balance_decManifests [OF ne, of ml rt d] show ?thesis by simp
next
  case (Some e)
  then have ne: "map_of ds rt' \<noteq> None" by simp
  from Some balance_decManifests [OF ne, of ml rt d] show ?thesis by simp
qed

lemma balance_commit:
  "balance (commit ob ds) rt d =
     balance ds rt d + int (count_list (produced ob rt) d) - int (count_list (declared ob rt) d)"
  by (cases ob) (simp_all only: balance_commit_arch balance_commit_top produced.simps
      declared.simps, simp_all)

lemma count_list_concat:
  "count_list (concat xss) d = sum_list (map (\<lambda>xs. count_list xs d) xss)"
  by (induction xss) simp_all

lemma balance_foldl_commit:
  "balance (foldl (\<lambda>ds ob. commit ob ds) ds obs) rt d =
     balance ds rt d + int (count_list (concat (map (\<lambda>ob. produced ob rt) obs)) d)
       - int (count_list (concat (map (\<lambda>ob. declared ob rt) obs)) d)"
  by (induction obs arbitrary: ds) (simp_all add: balance_commit del: commit.simps)

section \<open>The crawl as a fold over its observations\<close>

lemma fetched_Cons:
  "fetched (r # rs) = (case r of Inl err \<Rightarrow> [] | Inr ob \<Rightarrow> [ob]) @ fetched rs"
  by (simp add: fetched_def)

lemma fetched_Nil: "fetched [] = []"
  by (simp add: fetched_def)

lemma goTags_fst:
  "fst (goTags reg repo rSplit arch isArch tags (ds, gerr)) =
     foldl (\<lambda>ds ob. commit ob ds) ds (fetched (map (fetch reg repo rSplit arch isArch) tags))"
proof (induction tags arbitrary: ds gerr)
  case Nil
  show ?case by (simp add: fetched_Nil)
next
  case (Cons tag tags)
  show ?case
    by (cases "fetch reg repo rSplit arch isArch tag")
       (simp_all add: Cons.IH fetched_Cons del: commit.simps)
qed

lemma goTags_snd_Some:
  "snd (goTags reg repo rSplit arch isArch tags (ds, Some e)) = Some e"
proof (induction tags arbitrary: ds)
  case Nil
  show ?case by simp
next
  case (Cons tag tags)
  show ?case
    by (cases "fetch reg repo rSplit arch isArch tag") (simp_all add: Cons.IH del: commit.simps)
qed

lemma goTags_snd_None:
  "snd (goTags reg repo rSplit arch isArch tags (ds, None)) = None \<longleftrightarrow>
     (\<forall>tag \<in> set tags. \<forall>e. fetch reg repo rSplit arch isArch tag \<noteq> Inl e)"
proof (induction tags arbitrary: ds)
  case Nil
  show ?case by simp
next
  case (Cons tag tags)
  show ?case
    by (cases "fetch reg repo rSplit arch isArch tag")
       (simp_all add: Cons.IH goTags_snd_Some del: commit.simps)
qed

lemma goTags_snd_error:
  "snd (goTags reg repo rSplit arch isArch tags (ds, None)) = Some e \<Longrightarrow>
     \<exists>tag \<in> set tags. fetch reg repo rSplit arch isArch tag = Inl e"
proof (induction tags arbitrary: ds)
  case Nil
  then show ?case by simp
next
  case (Cons tag tags)
  show ?case
  proof (cases "fetch reg repo rSplit arch isArch tag")
    case (Inl err)
    with Cons.prems have "err = e" by (simp add: goTags_snd_Some)
    with Inl show ?thesis by simp
  next
    case (Inr ob)
    with Cons.prems have "snd (goTags reg repo rSplit arch isArch tags (commit ob ds, None)) = Some e"
      by simp
    from Cons.IH [OF this] show ?thesis by auto
  qed
qed

lemma crawl_observations:
  "crawl reg repoTags allArchs validArch ds = Inr ds' \<Longrightarrow>
   ds' = foldl (\<lambda>ds ob. commit ob ds) ds (observations reg repoTags allArchs validArch)"
proof (induction repoTags arbitrary: ds)
  case Nil
  then show ?case by (simp add: observations_def)
next
  case (Cons rts rest)
  obtain repo tags where rts: "rts = (repo, tags)" by (cases rts)
  obtain arch ok where pa: "processArch (hd (Split repo CHR ''/'')) allArchs validArch = (arch, ok)"
    by (cases "processArch (hd (Split repo CHR ''/'')) allArchs validArch")
  have obs: "observations reg (rts # rest) allArchs validArch =
     (if ok then fetched (map (fetch reg repo (Split repo CHR ''/'') arch (arch \<noteq> '''')) tags) else [])
       @ observations reg rest allArchs validArch"
    using rts pa by (simp add: observations_def repoObservations_def)
  show ?case
  proof (cases ok)
    case False
    with Cons.prems rts pa have "crawl reg rest allArchs validArch ds = Inr ds'" by simp
    from Cons.IH [OF this] False show ?thesis
      unfolding obs by simp
  next
    case True
    let ?g = "goTags reg repo (Split repo CHR ''/'') arch (arch \<noteq> '''') tags (ds, None)"
    obtain ds1 gerr where g: "?g = (ds1, gerr)" by (cases ?g)
    from Cons.prems rts pa True g have gerr: "gerr = None" and
      c: "crawl reg rest allArchs validArch ds1 = Inr ds'"
      by (auto split: option.splits)
    have "ds1 = fst ?g" using g by simp
    then have ds1: "ds1 = foldl (\<lambda>ds ob. commit ob ds) ds
        (fetched (map (fetch reg repo (Split repo CHR ''/'') arch (arch \<noteq> '''')) tags))"
      by (simp only: goTags_fst)
    from Cons.IH [OF c] True show ?thesis
      unfolding obs ds1 by simp
  qed
qed

section \<open>The observations and the digests the specification counts\<close>

lemma processArch_True:
  "processArch p allArchs validArch = (arch, True) \<longleftrightarrow>
     (p \<notin> set allArchs \<and> arch = '''') \<or> (p \<in> set allArchs \<and> p \<in> set validArch \<and> arch = p)"
  by (auto simp: processArch_eq)

lemma processArch_False:
  "processArch p allArchs validArch = (arch, False) \<longleftrightarrow>
     (p \<in> set allArchs \<and> p \<notin> set validArch \<and> arch = p)"
  by (auto simp: processArch_eq)

lemma fetch_produced:
  assumes "processArch (hd (Split repo CHR ''/'')) allArchs validArch = (arch, True)"
  shows "concat (map (\<lambda>ob. produced ob rt)
      (fetched [fetch reg repo (Split repo CHR ''/'') arch (arch \<noteq> '''') tag])) =
   archDigestAt reg allArchs validArch rt repo tag"
proof -
  from assms consider
    (top) "hd (Split repo CHR ''/'') \<notin> set allArchs" "arch = ''''"
  | (arch) "hd (Split repo CHR ''/'') \<in> set allArchs" "hd (Split repo CHR ''/'') \<in> set validArch"
      "arch = hd (Split repo CHR ''/'')"
    unfolding processArch_True by blast
  then show ?thesis
  proof cases
    case top
    then show ?thesis
      by (simp add: fetch_def fetched_def archDigestAt_def Let_def split: sum.splits)
  next
    case arch
    then show ?thesis
      by (simp add: fetch_def fetched_def archDigestAt_def Let_def split: sum.splits)
  qed
qed

lemma fetch_declared:
  assumes "processArch (hd (Split repo CHR ''/'')) allArchs validArch = (arch, True)"
  shows "concat (map (\<lambda>ob. declared ob rt)
      (fetched [fetch reg repo (Split repo CHR ''/'') arch (arch \<noteq> '''') tag])) =
   declaredAt reg allArchs validArch rt repo tag"
proof -
  from assms consider
    (top) "hd (Split repo CHR ''/'') \<notin> set allArchs" "arch = ''''"
  | (arch) "hd (Split repo CHR ''/'') \<in> set allArchs" "hd (Split repo CHR ''/'') \<in> set validArch"
      "arch = hd (Split repo CHR ''/'')"
    unfolding processArch_True by blast
  then show ?thesis
  proof cases
    case top
    then show ?thesis
      by (simp add: fetch_def fetched_def declaredAt_def Let_def split: sum.splits)
  next
    case arch
    then show ?thesis
      by (simp add: fetch_def fetched_def declaredAt_def Let_def split: sum.splits)
  qed
qed

lemma skipped_archDigestAt:
  "processArch (hd (Split repo CHR ''/'')) allArchs validArch = (arch, False) \<Longrightarrow>
   archDigestAt reg allArchs validArch rt repo tag = []"
  unfolding processArch_False by (simp add: archDigestAt_def Let_def)

lemma skipped_declaredAt:
  "processArch (hd (Split repo CHR ''/'')) allArchs validArch = (arch, False) \<Longrightarrow>
   declaredAt reg allArchs validArch rt repo tag = []"
  unfolding processArch_False by (auto simp add: declaredAt_def Let_def)

lemma fetched_map: "fetched (map f tags) = concat (map (\<lambda>tag. fetched [f tag]) tags)"
  by (induction tags) (simp_all add: fetched_def)

lemma concat_map_concat:
  "concat (map g (concat (map h xs))) = concat (map (\<lambda>x. concat (map g (h x))) xs)"
  by (induction xs) simp_all

lemma repo_produced:
  "concat (map (\<lambda>ob. produced ob rt) (repoObservations reg allArchs validArch (repo, tags))) =
     concat (map (archDigestAt reg allArchs validArch rt repo) tags)"
proof -
  obtain arch ok where pa: "processArch (hd (Split repo CHR ''/'')) allArchs validArch = (arch, ok)"
    by (cases "processArch (hd (Split repo CHR ''/'')) allArchs validArch")
  show ?thesis
  proof (cases ok)
    case True
    with pa have pa': "processArch (hd (Split repo CHR ''/'')) allArchs validArch = (arch, True)"
      by simp
    have "concat (map (\<lambda>ob. produced ob rt) (repoObservations reg allArchs validArch (repo, tags)))
        = concat (map (\<lambda>tag. concat (map (\<lambda>ob. produced ob rt)
            (fetched [fetch reg repo (Split repo CHR ''/'') arch (arch \<noteq> '''') tag]))) tags)"
      using pa' by (simp add: repoObservations_def fetched_map [of _ tags] concat_map_concat)
    also have "\<dots> = concat (map (archDigestAt reg allArchs validArch rt repo) tags)"
      by (simp only: fetch_produced [OF pa'])
    finally show ?thesis .
  next
    case False
    with pa have pa': "processArch (hd (Split repo CHR ''/'')) allArchs validArch = (arch, False)"
      by simp
    then show ?thesis
      by (simp add: repoObservations_def skipped_archDigestAt [OF pa'])
  qed
qed

lemma repo_declared:
  "concat (map (\<lambda>ob. declared ob rt) (repoObservations reg allArchs validArch (repo, tags))) =
     concat (map (declaredAt reg allArchs validArch rt repo) tags)"
proof -
  obtain arch ok where pa: "processArch (hd (Split repo CHR ''/'')) allArchs validArch = (arch, ok)"
    by (cases "processArch (hd (Split repo CHR ''/'')) allArchs validArch")
  show ?thesis
  proof (cases ok)
    case True
    with pa have pa': "processArch (hd (Split repo CHR ''/'')) allArchs validArch = (arch, True)"
      by simp
    have "concat (map (\<lambda>ob. declared ob rt) (repoObservations reg allArchs validArch (repo, tags)))
        = concat (map (\<lambda>tag. concat (map (\<lambda>ob. declared ob rt)
            (fetched [fetch reg repo (Split repo CHR ''/'') arch (arch \<noteq> '''') tag]))) tags)"
      using pa' by (simp add: repoObservations_def fetched_map [of _ tags] concat_map_concat)
    also have "\<dots> = concat (map (declaredAt reg allArchs validArch rt repo) tags)"
      by (simp only: fetch_declared [OF pa'])
    finally show ?thesis .
  next
    case False
    with pa have pa': "processArch (hd (Split repo CHR ''/'')) allArchs validArch = (arch, False)"
      by simp
    then show ?thesis
      by (simp add: repoObservations_def skipped_declaredAt [OF pa'])
  qed
qed

lemma observations_produced:
  "concat (map (\<lambda>ob. produced ob rt) (observations reg repoTags allArchs validArch)) =
     archImageDigests reg repoTags allArchs validArch rt"
proof -
  have "concat (map (\<lambda>ob. produced ob rt) (observations reg repoTags allArchs validArch)) =
      concat (map (\<lambda>rts. concat (map (\<lambda>ob. produced ob rt)
         (repoObservations reg allArchs validArch rts))) repoTags)"
    by (simp only: observations_def concat_map_concat)
  also have "\<dots> = concat (map (\<lambda>(repo, tags).
      concat (map (archDigestAt reg allArchs validArch rt repo) tags)) repoTags)"
    by (rule arg_cong [where f = concat], rule map_cong, simp, clarify, rule repo_produced)
  finally show ?thesis by (simp only: archImageDigests_def)
qed

lemma observations_declared:
  "concat (map (\<lambda>ob. declared ob rt) (observations reg repoTags allArchs validArch)) =
     declaredDigests reg repoTags allArchs validArch rt"
proof -
  have "concat (map (\<lambda>ob. declared ob rt) (observations reg repoTags allArchs validArch)) =
      concat (map (\<lambda>rts. concat (map (\<lambda>ob. declared ob rt)
         (repoObservations reg allArchs validArch rts))) repoTags)"
    by (simp only: observations_def concat_map_concat)
  also have "\<dots> = concat (map (\<lambda>(repo, tags).
      concat (map (declaredAt reg allArchs validArch rt repo) tags)) repoTags)"
    by (rule arg_cong [where f = concat], rule map_cong, simp, clarify, rule repo_declared)
  finally show ?thesis by (simp only: declaredDigests_def)
qed

lemma balance_Nil: "balance [] rt d = 0"
  by (simp add: balance_def)

lemma crawl_balance:
  assumes "crawl reg repoTags allArchs validArch [] = Inr ds"
  shows "balance ds rt d =
     int (count_list (archImageDigests reg repoTags allArchs validArch rt) d) -
     int (count_list (declaredDigests reg repoTags allArchs validArch rt) d)"
  unfolding crawl_observations [OF assms] balance_foldl_commit observations_produced
    observations_declared balance_Nil
  by simp

section \<open>C1: the counts after the crawl\<close>

text \<open>
  C1. When the crawl ends without error, the count that \<^verbatim>\<open>digests\<close> holds for a
  RepoTag \<open>rt\<close> and a digest \<open>d\<close> is the number of times the selected architecture
  images of \<open>rt\<close> yield \<open>d\<close> (one per repository/tag fetch) minus the number of times
  the top-level manifest lists of \<open>rt\<close> declare \<open>d\<close> (one per entry).
\<close>

theorem crawl_balance_invariant:
  "crawl reg repoTags allArchs validArch [] = Inr ds \<Longrightarrow>
   balance ds rt d =
     int (count_list (archImageDigests reg repoTags allArchs validArch rt) d) -
     int (count_list (declaredDigests reg repoTags allArchs validArch rt) d)"
  by (rule crawl_balance)

theorem crawl_balance_invariant_witness:
  "crawl exampleRegistry exampleRepoTags exampleAllArchs exampleArchs [] = Inr exampleDigests \<and>
   balance exampleDigests ''rck:latest'' ''sha256:BBB'' = 1 \<and>
   count_list (archImageDigests exampleRegistry exampleRepoTags exampleAllArchs exampleArchs
      ''rck:latest'') ''sha256:BBB'' = 1 \<and>
   count_list (declaredDigests exampleRegistry exampleRepoTags exampleAllArchs exampleArchs
      ''rck:latest'') ''sha256:BBB'' = 0"
proof -
  have h: "crawl exampleRegistry exampleRepoTags exampleAllArchs exampleArchs [] = Inr exampleDigests"
    by code_simp
  have a: "archImageDigests exampleRegistry exampleRepoTags exampleAllArchs exampleArchs
      ''rck:latest'' = [''sha256:AAA'', ''sha256:BBB'']"
    by code_simp
  have b: "declaredDigests exampleRegistry exampleRepoTags exampleAllArchs exampleArchs
      ''rck:latest'' = [''sha256:AAA'']"
    by code_simp
  have c: "balance exampleDigests ''rck:latest'' ''sha256:BBB'' = 1"
    using crawl_balance_invariant [OF h, of "''rck:latest''" "''sha256:BBB''"]
    unfolding a b by simp
  show ?thesis using h c unfolding a b by simp
qed

section \<open>The invariant is kept, and the second loop\<close>

lemma set_update:
  "set (AList.update k v al) \<subseteq> insert (k, v) (set al)"
  by (induction al) auto

lemma wellFormed_update:
  assumes "wellFormed ds" "distinct (map fst (digs e))"
  shows "wellFormed (AList.update rt e ds)"
proof -
  have "\<forall>p \<in> set (AList.update rt e ds). distinct (map fst (digs (snd p)))"
    using assms set_update [of rt e ds] by (auto simp: wellFormed_def list_all_iff)
  with assms(1) show ?thesis
    by (simp add: wellFormed_def list_all_iff distinct_update)
qed

lemma wellFormed_lookup:
  "wellFormed ds \<Longrightarrow> map_of ds rt = Some e \<Longrightarrow> distinct (map fst (digs e))"
  by (auto simp: wellFormed_def list_all_iff dest!: map_of_SomeD)

lemma wellFormed_decManifests:
  "wellFormed ds \<Longrightarrow> wellFormed (decManifests rt ml ds)"
proof (induction ml arbitrary: ds)
  case Nil
  then show ?case by simp
next
  case (Cons dig rest)
  show ?case
  proof (cases "map_of ds rt")
    case None
    with Cons show ?thesis by simp
  next
    case (Some e)
    from wellFormed_lookup [OF Cons.prems Some]
    have "distinct (map fst (digs (e\<lparr>digs := AList.update dig (lookupDigs (digs e) dig - 1) (digs e)\<rparr>)))"
      by (simp add: distinct_update)
    from wellFormed_update [OF Cons.prems this] Some Cons.IH show ?thesis by simp
  qed
qed

lemma wellFormed_newInfo: "wellFormed ds \<Longrightarrow> wellFormed (AList.update rt newInfo ds)"
  by (rule wellFormed_update) (simp_all add: newInfo_def)

lemma wellFormed_commit: "wellFormed ds \<Longrightarrow> wellFormed (commit ob ds)"
proof (cases ob)
  case (ArchImage rt arch dig)
  assume wf: "wellFormed ds"
  let ?ee = "case map_of ds rt of None \<Rightarrow> newInfo | Some e \<Rightarrow> e"
  have "distinct (map fst (digs ?ee))"
    using wellFormed_lookup [OF wf] by (simp add: newInfo_def split: option.split)
  then have "distinct (map fst (digs (?ee\<lparr>carchs := carchs ?ee @ [arch],
      digs := AList.update dig (lookupDigs (digs ?ee) dig + 1) (digs ?ee)\<rparr>)))"
    by (simp add: distinct_update)
  from wellFormed_update [OF wf this] ArchImage show ?thesis by (simp add: Let_def)
next
  case (TopLevel rt ml)
  assume wf: "wellFormed ds"
  then show ?thesis using TopLevel
    by (simp add: Let_def wellFormed_decManifests wellFormed_newInfo split: option.split)
qed

lemma wellFormed_foldl: 
  "wellFormed ds \<Longrightarrow> wellFormed (foldl (\<lambda>ds ob. commit ob ds) ds obs)"
  by (induction obs arbitrary: ds) (simp_all add: wellFormed_commit del: commit.simps)

lemma wellFormed_crawl:
  "crawl reg repoTags allArchs validArch [] = Inr ds \<Longrightarrow> wellFormed ds"
proof -
  assume "crawl reg repoTags allArchs validArch [] = Inr ds"
  then have ds: "ds = foldl (\<lambda>ds ob. commit ob ds) []
      (observations reg repoTags allArchs validArch)"
    by (rule crawl_observations)
  have "wellFormed []" by (simp add: wellFormed_def)
  then show ?thesis unfolding ds by (rule wellFormed_foldl)
qed


lemma needsUpdate_iff: "needsUpdate m \<longleftrightarrow> (\<exists>p \<in> set m. snd p \<noteq> 0)"
  by (induction m rule: needsUpdate.induct) auto

lemma needsUpdate_lookup:
  "distinct (map fst m) \<Longrightarrow> needsUpdate m \<longleftrightarrow> (\<exists>d. lookupDigs m d \<noteq> 0)"
proof -
  assume dist: "distinct (map fst m)"
  show ?thesis
  proof
    assume "needsUpdate m"
    then obtain d n where "(d, n) \<in> set m" "n \<noteq> 0" by (auto simp: needsUpdate_iff)
    with dist have "lookupDigs m d \<noteq> 0" by (simp add: lookupDigs_def)
    then show "\<exists>d. lookupDigs m d \<noteq> 0" ..
  next
    assume "\<exists>d. lookupDigs m d \<noteq> 0"
    then obtain d where "lookupDigs m d \<noteq> 0" ..
    then obtain n where "map_of m d = Some n" "n \<noteq> 0"
      by (auto simp: lookupDigs_def split: option.splits)
    then have "(d, n) \<in> set m" "n \<noteq> 0" by (auto dest: map_of_SomeD)
    then show "needsUpdate m" by (force simp: needsUpdate_iff)
  qed
qed

lemma collect_eq:
  "collect ds updates =
     updates @ map (\<lambda>p. \<lparr>repoTag = fst p, archs = carchs (snd p)\<rparr>)
       (filter (\<lambda>p. needsUpdate (digs (snd p))) ds)"
  by (induction ds updates rule: collect.induct) simp_all

lemma collect_repoTags:
  "map repoTag (collect ds []) = map fst (filter (\<lambda>p. needsUpdate (digs (snd p))) ds)"
  by (simp add: collect_eq comp_def)

lemma collect_unbalanced:
  assumes "wellFormed ds"
  shows "set (map repoTag (collect ds [])) = {rt. \<exists>d. balance ds rt d \<noteq> 0}"
proof (rule set_eqI)
  fix rt
  from assms have dist: "distinct (map fst ds)" by (simp add: wellFormed_def)
  have "rt \<in> set (map repoTag (collect ds [])) \<longleftrightarrow>
      (\<exists>e. (rt, e) \<in> set ds \<and> needsUpdate (digs e))"
    unfolding collect_repoTags by force
  also have "\<dots> \<longleftrightarrow> (\<exists>e. map_of ds rt = Some e \<and> needsUpdate (digs e))"
    using dist by (auto dest: map_of_SomeD)
  also have "\<dots> \<longleftrightarrow> (\<exists>e. map_of ds rt = Some e \<and> (\<exists>d. lookupDigs (digs e) d \<noteq> 0))"
    using needsUpdate_lookup [OF wellFormed_lookup [OF assms]] by blast
  also have "\<dots> \<longleftrightarrow> (\<exists>d. balance ds rt d \<noteq> 0)"
    by (auto simp: balance_def split: option.splits)
  finally show "rt \<in> set (map repoTag (collect ds [])) \<longleftrightarrow> rt \<in> {rt. \<exists>d. balance ds rt d \<noteq> 0}"
    by simp
qed

lemma collect_distinct:
  "wellFormed ds \<Longrightarrow> distinct (map repoTag (collect ds []))"
  unfolding collect_repoTags by (simp add: wellFormed_def distinct_map_filter)

lemma getUpdates_Inr:
  "crawl reg repoTags allArchs validArch [] = Inr ds \<Longrightarrow>
   getUpdates reg repoTags allArchs validArch = (collect ds [], None)"
  by (simp add: getUpdates_def)

lemma matched_balance_zero:
  assumes "crawl reg repoTags allArchs validArch [] = Inr ds"
    and "\<forall>rt. mset (declaredDigests reg repoTags allArchs validArch rt) =
      mset (archImageDigests reg repoTags allArchs validArch rt)"
  shows "balance ds rt d = 0"
proof -
  from assms(2) have "count (mset (declaredDigests reg repoTags allArchs validArch rt)) d =
      count (mset (archImageDigests reg repoTags allArchs validArch rt)) d"
    by simp
  then show ?thesis
    unfolding crawl_balance [OF assms(1)] count_mset by simp
qed

section \<open>C2: the update records are the unbalanced RepoTags\<close>

text \<open>
  C2. When the crawl ends without error, \<^verbatim>\<open>getUpdates\<close> returns no error and one
  update record for exactly the RepoTags that have a digest with a count other than
  zero. In particular, when for every RepoTag the top-level manifest lists declare the
  very multiset of digests that its selected architecture images produce (a RepoTag
  with no top-level tag declares nothing), there is no update record.
\<close>

theorem getUpdates_unbalanced:
  "crawl reg repoTags allArchs validArch [] = Inr ds \<Longrightarrow>
   snd (getUpdates reg repoTags allArchs validArch) = None \<and>
   set (map repoTag (fst (getUpdates reg repoTags allArchs validArch))) =
     {rt. \<exists>d. balance ds rt d \<noteq> 0} \<and>
   distinct (map repoTag (fst (getUpdates reg repoTags allArchs validArch))) \<and>
   ((\<forall>rt. mset (declaredDigests reg repoTags allArchs validArch rt) =
          mset (archImageDigests reg repoTags allArchs validArch rt)) \<longrightarrow>
    fst (getUpdates reg repoTags allArchs validArch) = [])"
proof -
  assume c: "crawl reg repoTags allArchs validArch [] = Inr ds"
  note wf = wellFormed_crawl [OF c]
  have set: "set (map repoTag (collect ds [])) = {rt. \<exists>d. balance ds rt d \<noteq> 0}"
    by (rule collect_unbalanced [OF wf])
  have "collect ds [] = []"
    if "\<forall>rt. mset (declaredDigests reg repoTags allArchs validArch rt) =
          mset (archImageDigests reg repoTags allArchs validArch rt)"
  proof -
    have "set (map repoTag (collect ds [])) = {}"
      unfolding set using matched_balance_zero [OF c that] by simp
    then show ?thesis by simp
  qed
  with set collect_distinct [OF wf] show ?thesis
    unfolding getUpdates_Inr [OF c] by simp
qed

theorem getUpdates_unbalanced_witness:
  "crawl exampleRegistry exampleRepoTags exampleAllArchs exampleArchs [] = Inr exampleDigests \<and>
   map repoTag (fst (getUpdates exampleRegistry exampleRepoTags exampleAllArchs exampleArchs)) =
     [''rck:latest'', ''solo:latest''] \<and>
   {rt. \<exists>d. balance exampleDigests rt d \<noteq> 0} = {''rck:latest'', ''solo:latest''} \<and>
   crawl exampleRegistry matchedRepoTags exampleAllArchs [''amd64''] [] = Inr matchedDigests \<and>
   (\<forall>rt. mset (declaredDigests exampleRegistry matchedRepoTags exampleAllArchs [''amd64''] rt) =
      mset (archImageDigests exampleRegistry matchedRepoTags exampleAllArchs [''amd64''] rt)) \<and>
   fst (getUpdates exampleRegistry matchedRepoTags exampleAllArchs [''amd64'']) = []"
proof -
  have h: "crawl exampleRegistry exampleRepoTags exampleAllArchs exampleArchs [] = Inr exampleDigests"
    by code_simp
  have u: "map repoTag (fst (getUpdates exampleRegistry exampleRepoTags exampleAllArchs exampleArchs)) =
     [''rck:latest'', ''solo:latest'']"
    by code_simp
  have k: "crawl exampleRegistry matchedRepoTags exampleAllArchs [''amd64''] [] = Inr matchedDigests"
    by code_simp
  have m: "\<forall>rt. mset (declaredDigests exampleRegistry matchedRepoTags exampleAllArchs [''amd64''] rt) =
      mset (archImageDigests exampleRegistry matchedRepoTags exampleAllArchs [''amd64''] rt)"
    by (simp add: declaredDigests_def archImageDigests_def declaredAt_def archDigestAt_def
        exampleRegistry_def matchedRepoTags_def exampleAllArchs_def Let_def)
  from getUpdates_unbalanced [OF h] u
  have s: "{rt. \<exists>d. balance exampleDigests rt d \<noteq> 0} = {''rck:latest'', ''solo:latest''}"
    by simp
  from getUpdates_unbalanced [OF k] m
  have e: "fst (getUpdates exampleRegistry matchedRepoTags exampleAllArchs [''amd64'']) = []"
    by blast
  from h u s k m e show ?thesis by blast
qed

section \<open>C3: a digest on one side only\<close>

text \<open>
  C3. When the crawl ends without error and a digest \<open>D\<close> is declared by a top-level
  manifest list of \<open>rt\<close> but produced by no selected architecture image of \<open>rt\<close>, or
  produced by one but declared by none, then \<open>rt\<close> is among the returned update
  records and its count for \<open>D\<close> is not zero.
\<close>

theorem one_sided_digest_flagged:
  "crawl reg repoTags allArchs validArch [] = Inr ds \<Longrightarrow>
   (D \<in> set (declaredDigests reg repoTags allArchs validArch rt) \<and>
    D \<notin> set (archImageDigests reg repoTags allArchs validArch rt)) \<or>
   (D \<in> set (archImageDigests reg repoTags allArchs validArch rt) \<and>
    D \<notin> set (declaredDigests reg repoTags allArchs validArch rt)) \<Longrightarrow>
   snd (getUpdates reg repoTags allArchs validArch) = None \<and>
   rt \<in> set (map repoTag (fst (getUpdates reg repoTags allArchs validArch))) \<and>
   balance ds rt D \<noteq> 0"
proof -
  assume c: "crawl reg repoTags allArchs validArch [] = Inr ds"
  assume "(D \<in> set (declaredDigests reg repoTags allArchs validArch rt) \<and>
    D \<notin> set (archImageDigests reg repoTags allArchs validArch rt)) \<or>
   (D \<in> set (archImageDigests reg repoTags allArchs validArch rt) \<and>
    D \<notin> set (declaredDigests reg repoTags allArchs validArch rt))"
  then have "(count_list (declaredDigests reg repoTags allArchs validArch rt) D > 0 \<and>
      count_list (archImageDigests reg repoTags allArchs validArch rt) D = 0) \<or>
     (count_list (archImageDigests reg repoTags allArchs validArch rt) D > 0 \<and>
      count_list (declaredDigests reg repoTags allArchs validArch rt) D = 0)"
    using count_list_0_iff [of "declaredDigests reg repoTags allArchs validArch rt" D]
      count_list_0_iff [of "archImageDigests reg repoTags allArchs validArch rt" D]
    by auto
  then have b: "balance ds rt D \<noteq> 0"
    unfolding crawl_balance [OF c] by auto
  then have "rt \<in> {rt. \<exists>d. balance ds rt d \<noteq> 0}" by blast
  then have "rt \<in> set (map repoTag (collect ds []))"
    unfolding collect_unbalanced [OF wellFormed_crawl [OF c]] .
  with b show ?thesis unfolding getUpdates_Inr [OF c] by simp
qed

theorem one_sided_digest_flagged_witness:
  "crawl exampleRegistry exampleRepoTags exampleAllArchs exampleArchs [] = Inr exampleDigests \<and>
   ''sha256:CCC'' \<in> set (declaredDigests exampleRegistry exampleRepoTags exampleAllArchs
      exampleArchs ''solo:latest'') \<and>
   ''sha256:CCC'' \<notin> set (archImageDigests exampleRegistry exampleRepoTags exampleAllArchs
      exampleArchs ''solo:latest'') \<and>
   ''solo:latest'' \<in> set (map repoTag
      (fst (getUpdates exampleRegistry exampleRepoTags exampleAllArchs exampleArchs))) \<and>
   balance exampleDigests ''solo:latest'' ''sha256:CCC'' \<noteq> 0 \<and>
   ''sha256:BBB'' \<in> set (archImageDigests exampleRegistry exampleRepoTags exampleAllArchs
      exampleArchs ''rck:latest'') \<and>
   ''sha256:BBB'' \<notin> set (declaredDigests exampleRegistry exampleRepoTags exampleAllArchs
      exampleArchs ''rck:latest'') \<and>
   ''rck:latest'' \<in> set (map repoTag
      (fst (getUpdates exampleRegistry exampleRepoTags exampleAllArchs exampleArchs))) \<and>
   balance exampleDigests ''rck:latest'' ''sha256:BBB'' \<noteq> 0"
proof -
  have h: "crawl exampleRegistry exampleRepoTags exampleAllArchs exampleArchs [] = Inr exampleDigests"
    by code_simp
  have a1: "archImageDigests exampleRegistry exampleRepoTags exampleAllArchs exampleArchs
      ''solo:latest'' = []"
    by code_simp
  have d1: "declaredDigests exampleRegistry exampleRepoTags exampleAllArchs exampleArchs
      ''solo:latest'' = [''sha256:CCC'']"
    by code_simp
  have a2: "archImageDigests exampleRegistry exampleRepoTags exampleAllArchs exampleArchs
      ''rck:latest'' = [''sha256:AAA'', ''sha256:BBB'']"
    by code_simp
  have d2: "declaredDigests exampleRegistry exampleRepoTags exampleAllArchs exampleArchs
      ''rck:latest'' = [''sha256:AAA'']"
    by code_simp
  have p1: "(''sha256:CCC'' \<in> set (declaredDigests exampleRegistry exampleRepoTags exampleAllArchs
      exampleArchs ''solo:latest'') \<and>
   ''sha256:CCC'' \<notin> set (archImageDigests exampleRegistry exampleRepoTags exampleAllArchs
      exampleArchs ''solo:latest''))"
    unfolding a1 d1 by simp
  have p2: "''sha256:BBB'' \<in> set (archImageDigests exampleRegistry exampleRepoTags exampleAllArchs
      exampleArchs ''rck:latest'') \<and>
   ''sha256:BBB'' \<notin> set (declaredDigests exampleRegistry exampleRepoTags exampleAllArchs
      exampleArchs ''rck:latest'')"
    unfolding a2 d2 by simp
  from one_sided_digest_flagged [OF h disjI1 [OF p1]]
       one_sided_digest_flagged [OF h disjI2 [OF p2]] h p1 p2
  show ?thesis by blast
qed

section \<open>C6: the order of the observations\<close>

lemma sum_list_map_mset:
  "mset xs = mset ys \<Longrightarrow> sum_list (map g xs) = (sum_list (map g ys) :: nat)"
proof -
  assume "mset xs = mset ys"
  then have "mset (map g xs) = mset (map g ys)" by simp
  then have "sum_mset (mset (map g xs)) = sum_mset (mset (map g ys))" by (rule arg_cong)
  then show ?thesis by (simp only: sum_mset_sum_list)
qed

lemma balance_foldl_mset:
  assumes "mset obs1 = mset obs2"
  shows "balance (foldl (\<lambda>ds ob. commit ob ds) ds obs1) rt d =
         balance (foldl (\<lambda>ds ob. commit ob ds) ds obs2) rt d"
  unfolding balance_foldl_commit count_list_concat map_map
  using sum_list_map_mset [OF assms, of "(\<lambda>xs. count_list xs d) \<circ> (\<lambda>ob. produced ob rt)"]
        sum_list_map_mset [OF assms, of "(\<lambda>xs. count_list xs d) \<circ> (\<lambda>ob. declared ob rt)"]
  by simp

lemma lookupDigs_absent: "d \<notin> fst ` set m \<Longrightarrow> lookupDigs m d = 0"
proof -
  assume "d \<notin> fst ` set m"
  then have "map_of m d = None" by (simp add: map_of_eq_None_iff)
  then show ?thesis by (simp add: lookupDigs_def)
qed

lemma abs_sum_lookup:
  assumes "distinct (map fst m)" "fst ` set m \<subseteq> S" "finite S"
  shows "sum_list (map (\<lambda>p. \<bar>snd p\<bar>) m) = (\<Sum>d\<in>S. \<bar>lookupDigs m d\<bar>)"
proof -
  from assms(1) have dm: "distinct m" by (simp add: distinct_map)
  from assms(1) have inj: "inj_on fst (set m)" by (simp add: distinct_map)
  have "sum_list (map (\<lambda>p. \<bar>snd p\<bar>) m) = (\<Sum>p\<in>set m. \<bar>snd p\<bar>)"
    using dm by (rule sum_list_distinct_conv_sum_set)
  also have "\<dots> = (\<Sum>p\<in>set m. \<bar>lookupDigs m (fst p)\<bar>)"
    using assms(1) by (intro sum.cong refl) (auto simp: lookupDigs_def)
  also have "\<dots> = (\<Sum>d\<in>fst ` set m. \<bar>lookupDigs m d\<bar>)"
    using inj by (simp add: sum.reindex)
  also have "\<dots> = (\<Sum>d\<in>S. \<bar>lookupDigs m d\<bar>)"
    using assms(2,3) by (intro sum.mono_neutral_left) (auto simp: lookupDigs_absent)
  finally show ?thesis .
qed

lemma balance_digsOf: "balance ds rt d = lookupDigs (digsOf ds rt) d"
  by (simp add: balance_def digsOf_def lookupDigs_def split: option.splits)

lemma absTotal_digsOf: "absTotal ds rt = sum_list (map (\<lambda>p. \<bar>snd p\<bar>) (digsOf ds rt))"
  by (simp add: absTotal_def digsOf_def split: option.splits)

lemma distinct_digsOf: "wellFormed ds \<Longrightarrow> distinct (map fst (digsOf ds rt))"
  by (auto simp: digsOf_def split: option.splits dest: wellFormed_lookup)

lemma absTotal_balance:
  assumes "wellFormed ds1" "wellFormed ds2" "\<And>d. balance ds1 rt d = balance ds2 rt d"
  shows "absTotal ds1 rt = absTotal ds2 rt"
proof -
  let ?S = "fst ` set (digsOf ds1 rt) \<union> fst ` set (digsOf ds2 rt)"
  have "absTotal ds1 rt = (\<Sum>d\<in>?S. \<bar>lookupDigs (digsOf ds1 rt) d\<bar>)"
    unfolding absTotal_digsOf by (rule abs_sum_lookup [OF distinct_digsOf [OF assms(1)]]) auto
  also have "\<dots> = (\<Sum>d\<in>?S. \<bar>lookupDigs (digsOf ds2 rt) d\<bar>)"
    using assms(3) by (simp add: balance_digsOf)
  also have "\<dots> = absTotal ds2 rt"
    unfolding absTotal_digsOf
    by (rule abs_sum_lookup [OF distinct_digsOf [OF assms(2)], symmetric]) auto
  finally show ?thesis .
qed

lemma wellFormed_Nil: "wellFormed []"
  by (simp add: wellFormed_def)

text \<open>
  C6. Folding the same multiset of observations (increments from architecture images,
  decrements from top-level manifest lists) into the empty map in any two orders gives
  the same count for every RepoTag and digest, and so the same sum of absolute values.
  (By \<open>crawl_observations\<close> the crawl is such a fold.)
\<close>

theorem balance_order_invariant:
  "mset obs1 = mset obs2 \<Longrightarrow>
   balance (foldl (\<lambda>ds ob. commit ob ds) [] obs1) rt d =
     balance (foldl (\<lambda>ds ob. commit ob ds) [] obs2) rt d \<and>
   absTotal (foldl (\<lambda>ds ob. commit ob ds) [] obs1) rt =
     absTotal (foldl (\<lambda>ds ob. commit ob ds) [] obs2) rt"
proof -
  assume m: "mset obs1 = mset obs2"
  have "absTotal (foldl (\<lambda>ds ob. commit ob ds) [] obs1) rt =
     absTotal (foldl (\<lambda>ds ob. commit ob ds) [] obs2) rt"
    by (rule absTotal_balance [OF wellFormed_foldl [OF wellFormed_Nil]
          wellFormed_foldl [OF wellFormed_Nil] balance_foldl_mset [OF m]])
  with balance_foldl_mset [OF m] show ?thesis by blast
qed

theorem balance_order_invariant_witness:
  "mset exampleObs1 = mset exampleObs2 \<and>
   balance (foldl (\<lambda>ds ob. commit ob ds) [] exampleObs1) ''rck:latest'' ''sha256:BBB'' = 1 \<and>
   balance (foldl (\<lambda>ds ob. commit ob ds) [] exampleObs2) ''rck:latest'' ''sha256:BBB'' = 1 \<and>
   absTotal (foldl (\<lambda>ds ob. commit ob ds) [] exampleObs1) ''rck:latest'' = 1 \<and>
   absTotal (foldl (\<lambda>ds ob. commit ob ds) [] exampleObs2) ''rck:latest'' = 1"
proof -
  have m: "mset exampleObs1 = mset exampleObs2"
    by (simp add: exampleObs1_def exampleObs2_def)
  have b: "balance (foldl (\<lambda>ds ob. commit ob ds) [] exampleObs1) ''rck:latest'' ''sha256:BBB'' = 1"
    by code_simp
  have a: "absTotal (foldl (\<lambda>ds ob. commit ob ds) [] exampleObs1) ''rck:latest'' = 1"
    by code_simp
  from balance_order_invariant [OF m, of "''rck:latest''" "''sha256:BBB''"] m a b
  show ?thesis by simp
qed

section \<open>C7: a failing fetch\<close>

lemma fetchFails_Cons:
  "fetchFails reg ((repo, tags) # rest) allArchs validArch e \<longleftrightarrow>
     (snd (processArch (hd (Split repo CHR ''/'')) allArchs validArch) \<and>
      (\<exists>tag \<in> set tags. fetch reg repo (Split repo CHR ''/'')
          (fst (processArch (hd (Split repo CHR ''/'')) allArchs validArch))
          (fst (processArch (hd (Split repo CHR ''/'')) allArchs validArch) \<noteq> '''') tag = Inl e))
     \<or> fetchFails reg rest allArchs validArch e"
  by (auto simp: fetchFails_def)

lemma fetchFails_Nil: "\<not> fetchFails reg [] allArchs validArch e"
  by (simp add: fetchFails_def)

lemma crawl_Inl_fetchFails:
  "crawl reg repoTags allArchs validArch ds = Inl e \<Longrightarrow> fetchFails reg repoTags allArchs validArch e"
proof (induction repoTags arbitrary: ds)
  case Nil
  then show ?case by simp
next
  case (Cons rts rest)
  obtain repo tags where rts: "rts = (repo, tags)" by (cases rts)
  obtain arch ok where pa: "processArch (hd (Split repo CHR ''/'')) allArchs validArch = (arch, ok)"
    by (cases "processArch (hd (Split repo CHR ''/'')) allArchs validArch")
  show ?case
  proof (cases ok)
    case False
    with Cons.prems rts pa have "crawl reg rest allArchs validArch ds = Inl e" by simp
    from Cons.IH [OF this] show ?thesis unfolding rts fetchFails_Cons by simp
  next
    case True
    let ?g = "goTags reg repo (Split repo CHR ''/'') arch (arch \<noteq> '''') tags (ds, None)"
    obtain ds1 gerr where g: "?g = (ds1, gerr)" by (cases ?g)
    show ?thesis
    proof (cases gerr)
      case None
      with Cons.prems rts pa True g have "crawl reg rest allArchs validArch ds1 = Inl e" by simp
      from Cons.IH [OF this] show ?thesis unfolding rts fetchFails_Cons by simp
    next
      case (Some err)
      with Cons.prems rts pa True g have "err = e" by simp
      with Some g have "snd ?g = Some e" by simp
      from goTags_snd_error [OF this] pa True show ?thesis
        unfolding rts fetchFails_Cons by simp
    qed
  qed
qed

lemma crawl_Inr_no_failure:
  "crawl reg repoTags allArchs validArch ds = Inr ds' \<Longrightarrow> \<not> fetchFails reg repoTags allArchs validArch e"
proof (induction repoTags arbitrary: ds)
  case Nil
  show ?case by (rule fetchFails_Nil)
next
  case (Cons rts rest)
  obtain repo tags where rts: "rts = (repo, tags)" by (cases rts)
  obtain arch ok where pa: "processArch (hd (Split repo CHR ''/'')) allArchs validArch = (arch, ok)"
    by (cases "processArch (hd (Split repo CHR ''/'')) allArchs validArch")
  show ?case
  proof (cases ok)
    case False
    with Cons.prems rts pa have "crawl reg rest allArchs validArch ds = Inr ds'" by simp
    from Cons.IH [OF this] pa False show ?thesis unfolding rts fetchFails_Cons by simp
  next
    case True
    let ?g = "goTags reg repo (Split repo CHR ''/'') arch (arch \<noteq> '''') tags (ds, None)"
    obtain ds1 gerr where g: "?g = (ds1, gerr)" by (cases ?g)
    from Cons.prems rts pa True g have gerr: "gerr = None" and
      c: "crawl reg rest allArchs validArch ds1 = Inr ds'"
      by (auto split: option.splits)
    from g gerr have "snd ?g = None" by simp
    then have "\<forall>tag \<in> set tags. \<forall>e. fetch reg repo (Split repo CHR ''/'') arch (arch \<noteq> '''') tag \<noteq> Inl e"
      by (simp only: goTags_snd_None)
    with Cons.IH [OF c] pa show ?thesis unfolding rts fetchFails_Cons by simp
  qed
qed

text \<open>
  C7. If some digest or manifest-list fetch of the crawl fails, \<^verbatim>\<open>getUpdates\<close>
  returns the error of a failing fetch (the first the group met) and no update record.
\<close>

theorem getUpdates_fetch_error:
  "fetchFails reg repoTags allArchs validArch e \<Longrightarrow>
   \<exists>e'. fetchFails reg repoTags allArchs validArch e' \<and>
        getUpdates reg repoTags allArchs validArch = ([], Some e')"
proof -
  assume f: "fetchFails reg repoTags allArchs validArch e"
  show ?thesis
  proof (cases "crawl reg repoTags allArchs validArch []")
    case (Inl e')
    from crawl_Inl_fetchFails [OF Inl] Inl show ?thesis
      by (auto simp: getUpdates_def)
  next
    case (Inr ds)
    from crawl_Inr_no_failure [OF Inr] f show ?thesis by blast
  qed
qed

theorem getUpdates_fetch_error_witness:
  "fetchFails exampleRegistry failingRepoTags exampleAllArchs exampleAllArchs (OtherError ''not found'') \<and>
   getUpdates exampleRegistry failingRepoTags exampleAllArchs exampleAllArchs =
     ([], Some (OtherError ''not found''))"
proof -
  have f: "fetchFails exampleRegistry failingRepoTags exampleAllArchs exampleAllArchs
      (OtherError ''not found'')"
    by code_simp
  have g: "getUpdates exampleRegistry failingRepoTags exampleAllArchs exampleAllArchs =
     ([], Some (OtherError ''not found''))"
    by code_simp
  from getUpdates_fetch_error [OF f] f g show ?thesis by simp
qed

section \<open>C8: a failing tag listing\<close>

lemma goRepos_map:
  "map_of (fst (goRepos reg repos (rts, gerr, out))) r =
     (if r \<in> set repos then (case Tags reg r of Inl err \<Rightarrow> map_of rts r | Inr tags \<Rightarrow> Some tags)
      else map_of rts r)"
proof (induction repos arbitrary: rts gerr out)
  case Nil
  show ?case by simp
next
  case (Cons repo repos)
  show ?case
    by (cases "Tags reg repo") (auto simp: Cons.IH update_conv' split: sum.splits)
qed

lemma goRepos_err_Some:
  "fst (snd (goRepos reg repos (rts, Some e, out))) = Some e"
proof (induction repos arbitrary: rts out)
  case Nil
  show ?case by simp
next
  case (Cons repo repos)
  show ?case by (cases "Tags reg repo") (simp_all add: Cons.IH)
qed

lemma goRepos_err_None:
  "repo \<in> set repos \<Longrightarrow> Tags reg repo = Inl e \<Longrightarrow>
   \<exists>e' repo'. repo' \<in> set repos \<and> Tags reg repo' = Inl e' \<and>
     fst (snd (goRepos reg repos (rts, None, out))) = Some e'"
proof (induction repos arbitrary: rts out)
  case Nil
  then show ?case by simp
next
  case (Cons r repos)
  show ?case
  proof (cases "Tags reg r")
    case (Inl err)
    then have "fst (snd (goRepos reg (r # repos) (rts, None, out))) = Some err"
      by (simp add: goRepos_err_Some)
    with Inl show ?thesis by auto
  next
    case (Inr tags)
    with Cons.prems have "repo \<in> set repos" by auto
    from Cons.IH [OF this Cons.prems(2), of "AList.update r tags rts" out] Inr
    show ?thesis by auto
  qed
qed

text \<open>
  C8, as stated, fails: when the listing of \<^verbatim>\<open>solo\<close> fails, \<^verbatim>\<open>getAllRepoTags\<close>
  returns the error and, with it, the map that the three tasks that succeeded filled.
\<close>

theorem getAllRepoTags_partial_counterexample:
  "Tags brokenRegistry ''solo'' = Inl (OtherError ''timeout'') \<and>
   getAllRepoTags brokenRegistry =
     ([(''rck'', [''latest'']), (''amd64/rck'', [''latest'']), (''s390x/rck'', [''latest''])],
      Some (OtherError ''timeout''),
      [''get tags of [solo] error: timeout''])"
  by code_simp

text \<open>
  C8, amended. If the tag listing of some repository fails, \<^verbatim>\<open>getAllRepoTags\<close>
  returns the error of a failing task (the first the group met) together with the map
  that holds the tags of exactly the repositories whose listing succeeded; its caller
  \<^verbatim>\<open>run\<close> drops that map and returns the error, with no reconciliation and no plan.
\<close>

theorem getAllRepoTags_task_error:
  "Catalog reg = Inr repos \<Longrightarrow> repo \<in> set repos \<Longrightarrow> Tags reg repo = Inl e \<Longrightarrow>
   \<exists>e' repo'. repo' \<in> set repos \<and> Tags reg repo' = Inl e' \<and>
     fst (snd (getAllRepoTags reg)) = Some e' \<and>
     (\<forall>r. map_of (fst (getAllRepoTags reg)) r =
        (if r \<in> set repos then (case Tags reg r of Inl err \<Rightarrow> None | Inr tags \<Rightarrow> Some tags)
         else None)) \<and>
     run reg allArchs archs' = (snd (snd (getAllRepoTags reg)), Some e')"
proof -
  assume c: "Catalog reg = Inr repos" and r: "repo \<in> set repos" and t: "Tags reg repo = Inl e"
  have g: "getAllRepoTags reg = goRepos reg repos ([], None, [])"
    using c by (simp add: getAllRepoTags_def)
  from goRepos_err_None [OF r t, of "[]" "[]"] obtain e' repo' where
    e': "repo' \<in> set repos" "Tags reg repo' = Inl e'"
      "fst (snd (getAllRepoTags reg)) = Some e'"
    unfolding g by blast
  have m: "\<forall>r. map_of (fst (getAllRepoTags reg)) r =
        (if r \<in> set repos then (case Tags reg r of Inl err \<Rightarrow> None | Inr tags \<Rightarrow> Some tags)
         else None)"
    unfolding g goRepos_map by (simp split: sum.split)
  obtain rts gerr out where p: "getAllRepoTags reg = (rts, gerr, out)"
    by (cases "getAllRepoTags reg")
  with e'(3) have "gerr = Some e'" by simp
  with p have "run reg allArchs archs' = (snd (snd (getAllRepoTags reg)), Some e')"
    by (simp add: run_def)
  with e' m show ?thesis by blast
qed

theorem getAllRepoTags_task_error_witness:
  "Catalog brokenRegistry = Inr [''rck'', ''amd64/rck'', ''s390x/rck'', ''solo''] \<and>
   ''solo'' \<in> set [''rck'', ''amd64/rck'', ''s390x/rck'', ''solo''] \<and>
   Tags brokenRegistry ''solo'' = Inl (OtherError ''timeout'') \<and>
   fst (snd (getAllRepoTags brokenRegistry)) = Some (OtherError ''timeout'') \<and>
   map_of (fst (getAllRepoTags brokenRegistry)) ''rck'' = Some [''latest''] \<and>
   map_of (fst (getAllRepoTags brokenRegistry)) ''solo'' = None \<and>
   run brokenRegistry exampleAllArchs exampleArchs =
     ([''get tags of [solo] error: timeout''], Some (OtherError ''timeout''))"
proof -
  have c: "Catalog brokenRegistry = Inr [''rck'', ''amd64/rck'', ''s390x/rck'', ''solo'']"
    by code_simp
  have r: "''solo'' \<in> set [''rck'', ''amd64/rck'', ''s390x/rck'', ''solo'']"
    by simp
  have t: "Tags brokenRegistry ''solo'' = Inl (OtherError ''timeout'')"
    by code_simp
  have t': "Tags brokenRegistry ''rck'' = Inr [''latest'']"
    by code_simp
  have e: "fst (snd (getAllRepoTags brokenRegistry)) = Some (OtherError ''timeout'')"
    by code_simp
  have o: "snd (snd (getAllRepoTags brokenRegistry)) = [''get tags of [solo] error: timeout'']"
    by code_simp
  from getAllRepoTags_task_error [OF c r t, of exampleAllArchs exampleArchs]
  obtain e' where
    m: "\<forall>r. map_of (fst (getAllRepoTags brokenRegistry)) r =
        (if r \<in> set [''rck'', ''amd64/rck'', ''s390x/rck'', ''solo'']
         then (case Tags brokenRegistry r of Inl err \<Rightarrow> None | Inr tags \<Rightarrow> Some tags)
         else None)"
    and e': "fst (snd (getAllRepoTags brokenRegistry)) = Some e'"
    and u: "run brokenRegistry exampleAllArchs exampleArchs =
      (snd (snd (getAllRepoTags brokenRegistry)), Some e')"
    by blast
  from e e' have "e' = OtherError ''timeout''" by simp
  with u o have u': "run brokenRegistry exampleAllArchs exampleArchs =
     ([''get tags of [solo] error: timeout''], Some (OtherError ''timeout''))"
    by simp
  from m t' have m1: "map_of (fst (getAllRepoTags brokenRegistry)) ''rck'' = Some [''latest'']"
    by simp
  from m t have m2: "map_of (fst (getAllRepoTags brokenRegistry)) ''solo'' = None"
    by simp
  from c r t e m1 m2 u' show ?thesis by blast
qed

section \<open>C9: the configuration checks of main\<close>

text \<open>
  \<^verbatim>\<open>strings.Split\<close> never returns an empty slice, so the two checks of \<^verbatim>\<open>main\<close>
  on the lengths never fire: with one positional argument \<^verbatim>\<open>main\<close> always goes on to
  \<^verbatim>\<open>getRegistry\<close>.
\<close>

lemma main_reaches_registry:
  "main getRegistry [domain] allArchs archs' =
     (case getRegistry domain of
        Inl err \<Rightarrow> Fatal (errorString err) []
      | Inr reg \<Rightarrow>
          (case run reg (Split allArchs CHR '','') (Split archs' CHR '','') of
             (out, Some err) \<Rightarrow> Fatal (errorString err) out
           | (out, None) \<Rightarrow> Success out))"
  by (simp add: main_def Let_def Split_not_Nil)

text \<open>
  C9 is not what the code does: with \<^verbatim>\<open>-a ""\<close> the list of architectures to
  process is \<open>['''']\<close>, of length one; \<^verbatim>\<open>main\<close> opens the registry, runs the crawl
  (every architecture repository is skipped) and ends with status 0 and a plan.
  Without a positional argument it does stop with the usage text and status 1.
\<close>

theorem main_empty_archs_accepted:
  "Split '''' CHR '','' = [''''] \<and>
   main (\<lambda>domain. Inr exampleRegistry) [''registry.io''] ''amd64,s390x,ppc64le,arm64'' '''' =
     Success
       [''docker manifest create --insecure --amend registry.io/rck:latest'',
        ''docker manifest push --insecure registry.io/rck:latest'',
        ''docker manifest create --insecure --amend registry.io/solo:latest'',
        ''docker manifest push --insecure registry.io/solo:latest''] \<and>
   exitStatus (main (\<lambda>domain. Inr exampleRegistry) [''registry.io'']
      ''amd64,s390x,ppc64le,arm64'' '''') = 0 \<and>
   main (\<lambda>domain. Inr exampleRegistry) [] ''amd64,s390x,ppc64le,arm64'' ''amd64,s390x'' = Usage"
  by code_simp

section \<open>C10: update records without architectures\<close>

lemma carchsOf_update:
  "carchsOf (AList.update rt e ds) rt' = (if rt' = rt then carchs e else carchsOf ds rt')"
  by (simp add: carchsOf_def update_conv')

lemma carchsOf_decManifests: "carchsOf (decManifests rt ml ds) rt' = carchsOf ds rt'"
proof (induction ml arbitrary: ds)
  case Nil
  show ?case by simp
next
  case (Cons dig rest)
  show ?case
  proof (cases "map_of ds rt")
    case None
    then show ?thesis by (simp add: Cons.IH)
  next
    case (Some e)
    then show ?thesis by (simp add: Cons.IH carchsOf_update) (simp add: carchsOf_def)
  qed
qed

lemma carchsOf_commit: "carchsOf (commit ob ds) rt = carchsOf ds rt @ contributed ob rt"
proof (cases ob)
  case (ArchImage rt' arch dig)
  then show ?thesis
    by (simp add: Let_def carchsOf_update) (simp add: carchsOf_def newInfo_def split: option.split)
next
  case (TopLevel rt' ml)
  then show ?thesis
    by (simp add: Let_def carchsOf_decManifests carchsOf_update split: option.split)
       (simp add: carchsOf_def newInfo_def)
qed

lemma carchsOf_foldl:
  "carchsOf (foldl (\<lambda>ds ob. commit ob ds) ds obs) rt =
     carchsOf ds rt @ concat (map (\<lambda>ob. contributed ob rt) obs)"
  by (induction obs arbitrary: ds) (simp_all add: carchsOf_commit del: commit.simps)

lemma contributed_produced: "contributed ob rt = [] \<longleftrightarrow> produced ob rt = []"
  by (cases ob) simp_all

lemma crawl_no_archs:
  assumes "crawl reg repoTags allArchs validArch [] = Inr ds"
    and "archImageDigests reg repoTags allArchs validArch rt = []"
  shows "carchsOf ds rt = []"
proof -
  from assms(2) have "\<forall>ob \<in> set (observations reg repoTags allArchs validArch). produced ob rt = []"
    unfolding observations_produced [symmetric] by simp
  then have "\<forall>ob \<in> set (observations reg repoTags allArchs validArch). contributed ob rt = []"
    by (simp add: contributed_produced)
  then show ?thesis
    unfolding crawl_observations [OF assms(1)] carchsOf_foldl by (simp add: carchsOf_def)
qed

lemma collect_archs:
  assumes "wellFormed ds" "u \<in> set (collect ds [])"
  shows "archs u = carchsOf ds (repoTag u)"
proof -
  from assms(2) obtain p where p: "p \<in> set ds" "u = \<lparr>repoTag = fst p, archs = carchs (snd p)\<rparr>"
    unfolding collect_eq by auto
  from assms(1) have "distinct (map fst ds)" by (simp add: wellFormed_def)
  with p(1) have "map_of ds (fst p) = Some (snd p)" by simp
  with p(2) show ?thesis by (simp add: carchsOf_def)
qed

lemma getUpdates_None:
  "getUpdates reg repoTags allArchs validArch = (ups, None) \<Longrightarrow>
   \<exists>ds. crawl reg repoTags allArchs validArch [] = Inr ds \<and> ups = collect ds []"
  by (auto simp: getUpdates_def split: sum.splits)

text \<open>
  C10. An update record that \<^verbatim>\<open>getUpdates\<close> returns for a RepoTag to which no
  selected architecture image contributed has an empty list of architectures, and
  its create command names the top-level image path and nothing after it.
\<close>

theorem update_without_archs:
  "getUpdates reg repoTags allArchs validArch = (ups, None) \<Longrightarrow> u \<in> set ups \<Longrightarrow>
   archImageDigests reg repoTags allArchs validArch (repoTag u) = [] \<Longrightarrow>
   archs u = [] \<and>
   pushUpdates [u] domain =
     ([''docker manifest create --insecure --amend '' @ domain @ ''/'' @ repoTag u,
       ''docker manifest push --insecure '' @ domain @ ''/'' @ repoTag u], None)"
proof -
  assume g: "getUpdates reg repoTags allArchs validArch = (ups, None)" and u: "u \<in> set ups"
    and a: "archImageDigests reg repoTags allArchs validArch (repoTag u) = []"
  from getUpdates_None [OF g] obtain ds where
    c: "crawl reg repoTags allArchs validArch [] = Inr ds" and ups: "ups = collect ds []"
    by blast
  from u ups have "archs u = carchsOf ds (repoTag u)"
    by (simp add: collect_archs [OF wellFormed_crawl [OF c]])
  with crawl_no_archs [OF c a] have e: "archs u = []" by simp
  then show ?thesis
    by (simp add: pushUpdates_def printUpdates_eq createLine_def pushLine_def)
qed

theorem update_without_archs_witness:
  "getUpdates exampleRegistry exampleRepoTags exampleAllArchs exampleArchs =
     ([\<lparr>repoTag = ''rck:latest'', archs = [''amd64'', ''s390x'']\<rparr>,
       \<lparr>repoTag = ''solo:latest'', archs = []\<rparr>], None) \<and>
   archImageDigests exampleRegistry exampleRepoTags exampleAllArchs exampleArchs ''solo:latest'' = [] \<and>
   pushUpdates [\<lparr>repoTag = ''solo:latest'', archs = []\<rparr>] ''registry.io'' =
     ([''docker manifest create --insecure --amend registry.io/solo:latest'',
       ''docker manifest push --insecure registry.io/solo:latest''], None)"
proof -
  have g: "getUpdates exampleRegistry exampleRepoTags exampleAllArchs exampleArchs =
     ([\<lparr>repoTag = ''rck:latest'', archs = [''amd64'', ''s390x'']\<rparr>,
       \<lparr>repoTag = ''solo:latest'', archs = []\<rparr>], None)"
    by code_simp
  have u: "\<lparr>repoTag = ''solo:latest'', archs = []\<rparr> \<in>
      set [\<lparr>repoTag = ''rck:latest'', archs = [''amd64'', ''s390x'']\<rparr>,
           \<lparr>repoTag = ''solo:latest'', archs = []\<rparr>]"
    by simp
  have a: "archImageDigests exampleRegistry exampleRepoTags exampleAllArchs exampleArchs
      (repoTag \<lparr>repoTag = ''solo:latest'', archs = []\<rparr>) = []"
    by code_simp
  from update_without_archs [OF g u a, of "''registry.io''"] g a show ?thesis by simp
qed

end
